theory Spec2Isabelle
  imports Main "HOL-Library.Sublist" "HOL-Library.Multiset" "HOL-Library.Word"
begin

section \<open>Data model\<close>

text \<open>
  The runner of \<^verbatim>\<open>include/reaver/mayfly/runner.h\<close> walks a tree of suites, dispatches
  the test cases that pass the name filter, runs each one either in-process or in a
  spawned child, and counts the outcomes.

  Modelled from the spec: \<^verbatim>\<open>testcase_status\<close> (declared in testcase.h, which is not among
  the sources). The wire codes are 0 = passed, 1 = failed, 2 = crashed, 3 = timed out;
  \<^verbatim>\<open>not_found\<close> is the next enumerator.
\<close>

datatype testcase_status = passed | failed | crashed | timed_out | not_found

definition status_codes :: "testcase_status list" where
  "status_codes = [passed, failed, crashed, timed_out, not_found]"

text \<open>\<^verbatim>\<open>static_cast<std::uintmax_t>(status)\<close>.\<close>

fun status_code :: "testcase_status \<Rightarrow> nat" where
  "status_code passed = 0"
| "status_code failed = 1"
| "status_code crashed = 2"
| "status_code timed_out = 3"
| "status_code not_found = 4"

text \<open>
  \<^verbatim>\<open>static_cast<testcase_status>(retval)\<close>; the source only casts after checking
  \<^verbatim>\<open>retval <= 3\<close>.
\<close>

definition status_of_code :: "64 word \<Rightarrow> testcase_status" where
  "status_of_code n = status_codes ! unat n"

text \<open>
  Modelled from the spec: the body of a test case (testcase.h is not among the sources).
  A body takes no argument and returns nothing; it either returns, raises a domain error
  (\<^verbatim>\<open>reaver::exception\<close>, carried here with the text the logger prints for it) or raises
  a generic error (\<^verbatim>\<open>std::exception\<close>, carried with its \<^verbatim>\<open>what()\<close>). These are the three
  outcomes \<^verbatim>\<open>_run_test\<close> handles.
\<close>

datatype body = Returns | Throws_reaver string | Throws_std string

record testcase =
  t_name :: string
  t_body :: body

datatype suite = Suite (s_name: string) (s_suites: "suite list") (s_tests: "testcase list")

text \<open>
  \<^verbatim>\<open>testcase_result\<close>: the duration is in milliseconds; \<open>None\<close> is a duration that
  \<^verbatim>\<open>_run_test\<close> never assigned.
\<close>

record testcase_result =
  name :: string
  status :: testcase_status
  description :: string
  duration :: "int option"

text \<open>
  The calls made on the reporter (suite and test notifications, the summary), each tagged
  with the joined path of the suite or the qualified path of the test it concerns, and
  three marks of what the runner itself does: \<open>Dispatched\<close> at \<^verbatim>\<open>++_tests\<close> and
  \<^verbatim>\<open>pool.push\<close>, \<open>In_process\<close> where the body is called in this process, and \<open>Spawned\<close>
  with the argument vector where a child process is executed.
\<close>

datatype event =
    Suite_started string
  | Suite_finished string
  | Test_started string
  | Test_finished string testcase_result
  | Summary "(testcase_status \<times> string) list" nat nat
  | Dispatched string
  | In_process string
  | Spawned string "string list"

text \<open>
  What the parent observes of one spawned child: the bytes that arrive on the pipe up to
  end-of-stream, the value of \<^verbatim>\<open>timeout_flag\<close> when the handler reads it, and the time
  between the two readings of the clock, in nanoseconds.
\<close>

record child_obs =
  c_output :: string
  c_timeout_flag :: bool
  c_elapsed_ns :: int

text \<open>
  The surroundings of a run: the behaviour of spawned children by argument vector, the
  names in the reporter registry, the option descriptions that the help prints, and what
  \<^verbatim>\<open>_failed\<close> holds after a \<^verbatim>\<open>push_back\<close> that runs on one of several worker threads.
  The vector is shared and the call takes no lock, so with more than one worker other
  calls may overlap it and the source does not determine the outcome.
\<close>

record env =
  child :: "string list \<Rightarrow> child_obs"
  unsynchronised_push ::
    "(testcase_status \<times> string) list \<Rightarrow> testcase_status \<times> string
       \<Rightarrow> (testcase_status \<times> string) list"
  registered :: "string \<Rightarrow> bool"
  help_general :: string
  help_config :: string

text \<open>The fields of \<^verbatim>\<open>runner\<close> and \<^verbatim>\<open>subprocess_runner\<close> that a run never changes.\<close>

record runner =
  threads :: nat
  limit :: nat
  timeout :: nat
  test_name :: string
  executable :: string

text \<open>
  The state a run updates: the counters \<^verbatim>\<open>_tests\<close> and \<^verbatim>\<open>_passed\<close>, the list
  \<^verbatim>\<open>_failed\<close>, the trace of events, the choices the scheduler of the thread pool has
  not used yet, and standard output. The counters are \<^verbatim>\<open>std::uintmax_t\<close>; they count
  test cases held in memory and cannot wrap, so they are natural numbers here.
\<close>

record world =
  r_tests :: nat
  r_passed :: nat
  r_failed :: "(testcase_status \<times> string) list"
  trace :: "event list"
  sched :: "nat list"
  cout :: string

definition emit :: "event \<Rightarrow> world \<Rightarrow> world" where
  "emit ev w = w\<lparr>trace := trace w @ [ev]\<rparr>"

section \<open>Paths and the name filter\<close>

text \<open>\<^verbatim>\<open>boost::join(suite_stack, "/")\<close>.\<close>

fun join :: "string list \<Rightarrow> string \<Rightarrow> string" where
  "join [] sep = []"
| "join [x] sep = x"
| "join (x # y # ys) sep = x @ sep @ join (y # ys) sep"

text \<open>
  \<^verbatim>\<open>boost::range::search(hay, needle)\<close>, as an offset from \<^verbatim>\<open>hay.begin()\<close>: the start of
  the first occurrence of the needle, and the length of the haystack (its end) when
  there is none.
\<close>

fun search :: "'a list \<Rightarrow> 'a list \<Rightarrow> nat" where
  "search [] needle = 0"
| "search (x # xs) needle = (if prefix needle (x # xs) then 0 else Suc (search xs needle))"

text \<open>\<^verbatim>\<open>boost::join(suite_stack, "/") + "/" + t.name()\<close>.\<close>

definition qualified_path :: "string list \<Rightarrow> testcase \<Rightarrow> string" where
  "qualified_path suite_stack t = join suite_stack ''/'' @ ''/'' @ t_name t"

section \<open>Reading the child's protocol line\<close>

text \<open>
  The input stream over the pipe: the bytes not yet read and the two state bits the
  source depends on. The stream's exception mask is empty, so a failed read only sets
  bits.
\<close>

record istream =
  buf :: string
  failbit :: bool
  eofbit :: bool

definition isspace :: "char \<Rightarrow> bool" where
  "isspace c = (c \<in> set [CHR '' '', CHR 0x09, CHR 0x0A, CHR 0x0B, CHR 0x0C, CHR 0x0D])"

definition isdigit :: "char \<Rightarrow> bool" where
  "isdigit c = (c \<in> set ''0123456789'')"

fun digits_value :: "int \<Rightarrow> string \<Rightarrow> int" where
  "digits_value acc [] = acc"
| "digits_value acc (c # cs) = digits_value (10 * acc + (of_char c - 48)) cs"

definition uintmax_max :: int where
  "uintmax_max = 2 ^ 64 - 1"

text \<open>
  \<^verbatim>\<open>is >> retval\<close> for \<^verbatim>\<open>std::uintmax_t\<close>: skip white space, read an optional sign and
  decimal digits. No digit sets \<^verbatim>\<open>failbit\<close> and stores 0; a value past the type's
  maximum stores the maximum and sets \<^verbatim>\<open>failbit\<close>; a minus sign negates in the
  unsigned type; reaching the end of the bytes sets \<^verbatim>\<open>eofbit\<close>. On a stream that is not
  good the sentry sets \<^verbatim>\<open>failbit\<close> and nothing is read.
\<close>

definition extract_uintmax :: "istream \<Rightarrow> 64 word \<times> istream" where
  "extract_uintmax s =
     (if failbit s \<or> eofbit s then (0, s\<lparr>failbit := True\<rparr>)
      else
        let b1 = dropWhile isspace (buf s) in
        if b1 = [] then (0, s\<lparr>buf := [], failbit := True, eofbit := True\<rparr>)
        else
          let neg = (hd b1 = CHR ''-'');
              b2 = (if hd b1 = CHR ''-'' \<or> hd b1 = CHR ''+'' then tl b1 else b1);
              ds = takeWhile isdigit b2;
              b3 = dropWhile isdigit b2;
              v = digits_value 0 ds
          in
            if ds = [] then (0, s\<lparr>buf := b3, failbit := True, eofbit := (b3 = [])\<rparr>)
            else if uintmax_max < v
              then (word_of_int uintmax_max,
                    s\<lparr>buf := b3, failbit := True, eofbit := (b3 = [])\<rparr>)
            else ((if neg then - word_of_int v else word_of_int v),
                  s\<lparr>buf := b3, eofbit := (b3 = [])\<rparr>))"

text \<open>
  \<^verbatim>\<open>std::getline(is, message)\<close>: on a stream that is not good the sentry sets
  \<^verbatim>\<open>failbit\<close> and the string is left as it was; otherwise the string is replaced by the
  bytes up to the newline, which is read and dropped, or up to the end, which sets
  \<^verbatim>\<open>eofbit\<close>, and \<^verbatim>\<open>failbit\<close> too when nothing at all was read.
\<close>

definition getline :: "istream \<Rightarrow> string \<Rightarrow> string \<times> istream" where
  "getline s message =
     (if failbit s \<or> eofbit s then (message, s\<lparr>failbit := True\<rparr>)
      else
        let line = takeWhile (\<lambda>c. c \<noteq> CHR 0x0A) (buf s);
            rest = dropWhile (\<lambda>c. c \<noteq> CHR 0x0A) (buf s)
        in
          if rest = [] then (line, s\<lparr>buf := [], failbit := (line = []), eofbit := True\<rparr>)
          else (line, s\<lparr>buf := tl rest\<rparr>))"

text \<open>\<^verbatim>\<open>message.substr(1)\<close>: \<open>None\<close> is the \<^verbatim>\<open>std::out_of_range\<close> it throws on an empty string.\<close>

definition substr1 :: "string \<Rightarrow> string option" where
  "substr1 message = (if message = [] then None else Some (tl message))"

text \<open>
  The three reads at the head of the \<^verbatim>\<open>try\<close> block. \<open>None\<close>: the block was left by an
  exception. Otherwise whether the stream has failed (\<^verbatim>\<open>!is\<close>), the integer, and the
  message without its first byte.
\<close>

definition decode :: "string \<Rightarrow> (bool \<times> 64 word \<times> string) option" where
  "decode bytes =
     (let (retval, s1) = extract_uintmax \<lparr>buf = bytes, failbit = False, eofbit = False\<rparr>;
          (message, s2) = getline s1 []
      in case substr1 message of
           None \<Rightarrow> None
         | Some m \<Rightarrow> Some (failbit s2, retval, m))"

text \<open>
  The status and description the parent records for a child: the handler of the
  \<^verbatim>\<open>try\<close> block consults \<^verbatim>\<open>timeout_flag\<close>; the block itself does not.
\<close>

definition read_result :: "child_obs \<Rightarrow> testcase_status \<times> string" where
  "read_result obs =
     (case decode (c_output obs) of
        None \<Rightarrow> (if c_timeout_flag obs then timed_out else crashed, [])
      | Some (bad, retval, m) \<Rightarrow>
          if bad \<or> 3 < retval then (crashed, []) else (status_of_code retval, m))"

section \<open>Running one test case\<close>

definition child_args :: "runner \<Rightarrow> string \<Rightarrow> string list" where
  "child_args rn qn = [executable rn, ''--test'', qn, ''-r'', ''subprocess'']"

text \<open>The \<^verbatim>\<open>try\<close> block around \<^verbatim>\<open>t()\<close>. It assigns no duration.\<close>

definition in_process :: "testcase \<Rightarrow> testcase_result" where
  "in_process t =
     (case t_body t of
        Returns \<Rightarrow> \<lparr>name = t_name t, status = passed, description = [], duration = None\<rparr>
      | Throws_reaver msg \<Rightarrow>
          \<lparr>name = t_name t, status = failed, description = msg, duration = None\<rparr>
      | Throws_std msg \<Rightarrow>
          \<lparr>name = t_name t, status = failed, description = msg, duration = None\<rparr>)"

text \<open>\<^verbatim>\<open>std::chrono::duration_cast<std::chrono::milliseconds>\<close> of nanoseconds: towards zero.\<close>

definition to_milliseconds :: "int \<Rightarrow> int" where
  "to_milliseconds ns = (if 0 \<le> ns then ns div 1000000 else - ((- ns) div 1000000))"

text \<open>The other branch: spawn the child, read its line, take the time.\<close>

definition isolated :: "env \<Rightarrow> runner \<Rightarrow> string list \<Rightarrow> testcase \<Rightarrow> testcase_result" where
  "isolated e rn suite_stack t =
     (let obs = child e (child_args rn (qualified_path suite_stack t));
          (st, msg) = read_result obs
      in \<lparr>name = t_name t, status = st, description = msg,
          duration = Some (to_milliseconds (c_elapsed_ns obs))\<rparr>)"

text \<open>
  The choice of \<^verbatim>\<open>_run_test\<close> between its two branches: the result, and the mark of
  what was executed.
\<close>

definition execute :: "env \<Rightarrow> runner \<Rightarrow> testcase \<Rightarrow> string list \<Rightarrow> testcase_result \<times> event" where
  "execute e rn t suite_stack =
     (let qn = qualified_path suite_stack t in
      if qn = test_name rn then (in_process t, In_process qn)
      else (isolated e rn suite_stack t, Spawned qn (child_args rn qn)))"

text \<open>\<^verbatim>\<open>subprocess_runner::_run_test\<close>, with its calls on the reporter.\<close>

definition run_test ::
  "env \<Rightarrow> runner \<Rightarrow> testcase \<Rightarrow> string list \<Rightarrow> world \<Rightarrow> testcase_result \<times> world" where
  "run_test e rn t suite_stack w =
     (let qn = qualified_path suite_stack t;
          w1 = (if threads rn = 1 then emit (Test_started qn) w else w);
          (result, mark) = execute e rn t suite_stack;
          w2 = emit mark w1;
          w3 = (if threads rn \<noteq> 1
                then emit (Test_finished qn result) (emit (Test_started qn) w2)
                else emit (Test_finished qn result) w2)
      in (result, w3))"

text \<open>
  The task pushed to the pool: run the test, then count it or list it. \<^verbatim>\<open>++_passed\<close> is
  atomic. \<^verbatim>\<open>_failed.push_back\<close> is not synchronised: with a single worker the calls
  follow one another and each appends its entry; with any other number of workers the
  outcome is left to the surroundings.
\<close>

definition task :: "env \<Rightarrow> runner \<Rightarrow> string list \<Rightarrow> testcase \<Rightarrow> world \<Rightarrow> world" where
  "task e rn suite_stack t w =
     (let (result, w1) = run_test e rn t suite_stack w in
      if status result = passed then w1\<lparr>r_passed := r_passed w1 + 1\<rparr>
      else if threads rn = 1
        then w1\<lparr>r_failed := r_failed w1 @ [(status result, qualified_path suite_stack t)]\<rparr>
      else w1\<lparr>r_failed :=
             unsynchronised_push e (r_failed w1) (status result, qualified_path suite_stack t)\<rparr>)"

section \<open>The thread pool of one suite\<close>

text \<open>
  Modelled from the spec: \<^verbatim>\<open>reaver::thread_pool\<close> (reaver/thread_pool.h is not among the
  sources): a pool of \<^verbatim>\<open>_threads\<close> workers, made afresh for each suite, whose destructor
  returns once every pushed task has run. Tasks are taken whole: the two notifications of
  a test are made under the reporter's lock or on the single worker, and the counters are
  atomic, so the order of whole tasks decides the trace and the counters; the list of
  failures is the one thing several workers share without a lock, see \<open>task\<close>. The scheduler is a list
  of choices: after a push, choice 0 lets the dispatching thread go on, and a choice
  \<open>c > 0\<close> lets a worker run one pending task first, the oldest one when there is a
  single worker and the one numbered \<open>c - 1\<close> (modulo the number pending) otherwise. When
  the choices run out, the dispatching thread goes on and the destructor runs what is
  left, oldest first.
\<close>

definition worker_pick :: "runner \<Rightarrow> nat \<Rightarrow> nat \<Rightarrow> nat" where
  "worker_pick rn c n = (if threads rn = 1 then 0 else c mod n)"

fun workers ::
  "env \<Rightarrow> runner \<Rightarrow> string list \<Rightarrow> nat list \<Rightarrow> testcase list \<Rightarrow> world
     \<Rightarrow> nat list \<times> testcase list \<times> world" where
  "workers e rn suite_stack [] q w = ([], q, w)"
| "workers e rn suite_stack (c # cs) q w =
     (if c = 0 \<or> q = [] then (cs, q, w)
      else
        let i = worker_pick rn (c - 1) (length q)
        in workers e rn suite_stack cs (take i q @ drop (Suc i) q)
             (task e rn suite_stack (q ! i) w))"

text \<open>\<^verbatim>\<open>pool.push(task)\<close>: the task joins the queue, and workers may run before the caller goes on.\<close>

definition push :: "env \<Rightarrow> runner \<Rightarrow> string list \<Rightarrow> testcase \<Rightarrow> testcase list \<Rightarrow> world
     \<Rightarrow> testcase list \<times> world" where
  "push e rn suite_stack t q w =
     (let (cs, q', w') = workers e rn suite_stack (sched w) (q @ [t]) w
      in (q', w'\<lparr>sched := cs\<rparr>))"

text \<open>The destructor of the pool, at the end of the block: every pending task runs.\<close>

function drain :: "env \<Rightarrow> runner \<Rightarrow> string list \<Rightarrow> testcase list \<Rightarrow> world \<Rightarrow> world" where
  "drain e rn suite_stack q w =
     (if q = [] then w
      else
        let c = (case sched w of [] \<Rightarrow> 0 | c # cs \<Rightarrow> c);
            w1 = w\<lparr>sched := tl (sched w)\<rparr>;
            i = worker_pick rn c (length q)
        in drain e rn suite_stack (take i q @ drop (Suc i) q)
             (task e rn suite_stack (q ! i) w1))"
  by pat_completeness auto
termination
proof (relation "measure (\<lambda>(e, rn, suite_stack, q, w). length q)", goal_cases)
  case 1
  show ?case by simp
next
  case (2 e rn suite_stack q w c w1 i)
  then have "i < length q"
    by (simp add: worker_pick_def)
  then show ?case
    by simp
qed

section \<open>Walking the suites\<close>

text \<open>
  The loop over the test cases of a suite, inside the block that holds the pool: a test
  the filter excludes is skipped; any other is counted in \<^verbatim>\<open>_tests\<close> and pushed. The
  queue argument is what the pool holds.
\<close>

fun dispatch ::
  "env \<Rightarrow> runner \<Rightarrow> string list \<Rightarrow> testcase list \<Rightarrow> testcase list \<Rightarrow> world \<Rightarrow> world" where
  "dispatch e rn suite_stack [] q w = drain e rn suite_stack q w"
| "dispatch e rn suite_stack (t # ts) q w =
     (if test_name rn \<noteq> [] \<and> qualified_path suite_stack t \<noteq> test_name rn
      then dispatch e rn suite_stack ts q w
      else
        let w1 = emit (Dispatched (qualified_path suite_stack t)) (w\<lparr>r_tests := r_tests w + 1\<rparr>);
            (q', w2) = push e rn suite_stack t q w1
        in dispatch e rn suite_stack ts q' w2)"

text \<open>
  \<^verbatim>\<open>subprocess_runner::_handle_suite\<close>, and the loop that calls it for each suite of a
  list (the sub-suites of a suite, or the suites given to \<^verbatim>\<open>operator()\<close>).
\<close>

fun handle_suite :: "env \<Rightarrow> runner \<Rightarrow> suite \<Rightarrow> string list \<Rightarrow> world \<Rightarrow> world"
  and handle_suites :: "env \<Rightarrow> runner \<Rightarrow> suite list \<Rightarrow> string list \<Rightarrow> world \<Rightarrow> world" where
  "handle_suite e rn (Suite n subs ts) stack w =
     (let suite_stack = stack @ [n] in
      if search (test_name rn) (join suite_stack ''/'') \<noteq> 0 then w
      else
        let w1 = emit (Suite_started (join suite_stack ''/'')) w;
            w2 = handle_suites e rn subs suite_stack w1;
            w3 = dispatch e rn suite_stack ts [] w2
        in emit (Suite_finished (join suite_stack ''/'')) w3)"
| "handle_suites e rn [] stack w = w"
| "handle_suites e rn (s # ss) stack w =
     handle_suites e rn ss stack (handle_suite e rn s stack w)"

text \<open>\<^verbatim>\<open>subprocess_runner::operator()\<close>.\<close>

definition runner_call :: "env \<Rightarrow> runner \<Rightarrow> suite list \<Rightarrow> world \<Rightarrow> world" where
  "runner_call e rn suites w = handle_suites e rn suites [] w"

section \<open>The entry point\<close>

text \<open>
  The command line after \<^verbatim>\<open>boost::program_options\<close> has parsed it: which options were
  given, and with what values. \<open>o_error\<close> only sets the level of the default logger.
\<close>

record options =
  o_help :: bool
  o_version :: bool
  o_tasks :: "nat option"
  o_test :: "string option"
  o_reporter :: "string list"
  o_quiet :: bool
  o_timeout :: "nat option"
  o_error :: bool
  argv0 :: string

datatype exception = Invalid_testcase_name_format string | Out_of_range

datatype exit = Return int | Throw exception

definition version_string :: string where
  "version_string =
     ''Reaver Project'' @ [CHR 0x27] @ ''s Mayfly v0.1.1 alpha\<newline>Copyright '' @ [CHR 0xC2, CHR 0xA9]
       @ '' 2014 Reaver Project Team\<newline>''"

definition version_text :: string where
  "version_text =
     version_string @ ''Distributed under modified zlib license.\<newline>\<newline>''
       @ ''Mayfly is the Reaver Project'' @ [CHR 0x27] @ ''s free testing framework.\<newline>''"

text \<open>The decimal digits that \<^verbatim>\<open>std::cout << n\<close> writes for an unsigned integer.\<close>

fun show_nat :: "nat \<Rightarrow> string" where
  "show_nat n =
     (if n < 10 then [char_of (48 + n)] else show_nat (n div 10) @ [char_of (48 + n mod 10)])"

definition initial :: "nat list \<Rightarrow> world" where
  "initial schedule =
     \<lparr>r_tests = 0, r_passed = 0, r_failed = [], trace = [], sched = schedule, cout = []\<rparr>"

text \<open>
  The runner that \<^verbatim>\<open>run\<close> makes: the defaults of its local variables, overwritten by
  the options given.
\<close>

definition runner_of :: "options \<Rightarrow> runner" where
  "runner_of opts =
     \<lparr>threads = (case o_tasks opts of None \<Rightarrow> 1 | Some n \<Rightarrow> n),
      limit = 0,
      timeout = (case o_timeout opts of None \<Rightarrow> 60 | Some n \<Rightarrow> n),
      test_name = (case o_test opts of None \<Rightarrow> [] | Some s \<Rightarrow> s),
      executable = argv0 opts\<rparr>"

text \<open>The reporters selected: those named, or the console unless quiet.\<close>

definition reporters_of :: "options \<Rightarrow> string list" where
  "reporters_of opts =
     (if o_reporter opts \<noteq> [] then o_reporter opts
      else if \<not> o_quiet opts then [''console''] else [])"

text \<open>
  \<^verbatim>\<open>run\<close>. The look-up of a reporter that is not registered throws; the registry is
  declared in reporter.h.
\<close>

definition run :: "env \<Rightarrow> suite list \<Rightarrow> options \<Rightarrow> nat list \<Rightarrow> exit \<times> world" where
  "run e suites opts schedule =
     (let rn = runner_of opts;
          w0 = initial schedule
      in
        if o_help opts
          then (Return 0,
                w0\<lparr>cout := version_string @ ''\<newline>'' @ help_general e @ ''\<newline>'' @ help_config e\<rparr>)
        else if o_version opts then (Return 0, w0\<lparr>cout := version_text\<rparr>)
        else if \<not> list_all (registered e) (reporters_of opts) then (Throw Out_of_range, w0)
        else if test_name rn \<noteq> [] \<and> CHR ''/'' \<notin> set (test_name rn) then
          (if \<not> o_quiet opts then (Throw (Invalid_testcase_name_format (test_name rn)), w0)
           else (Return 1, w0\<lparr>cout := show_nat (status_code not_found)\<rparr>))
        else
          let w1 = runner_call e rn suites w0;
              w2 = emit (Summary (r_failed w1) (r_passed w1) (r_tests w1)) w1
          in (if r_passed w2 = r_tests w2 then Return 0 else Return 1, w2))"

section \<open>Observations on a trace\<close>

text \<open>
  What a trace shows, in the order of the trace: the paths of the tests dispatched, the
  results reported with the paths of their tests, the paths of the tests executed in this
  process and of those executed in a child, and the paths of the suites whose start and
  finish were notified.
\<close>

fun dispatched :: "event list \<Rightarrow> string list" where
  "dispatched [] = []"
| "dispatched (Dispatched p # es) = p # dispatched es"
| "dispatched (ev # es) = dispatched es"

fun results :: "event list \<Rightarrow> (string \<times> testcase_result) list" where
  "results [] = []"
| "results (Test_finished p r # es) = (p, r) # results es"
| "results (ev # es) = results es"

fun in_process_run :: "event list \<Rightarrow> string list" where
  "in_process_run [] = []"
| "in_process_run (In_process p # es) = p # in_process_run es"
| "in_process_run (ev # es) = in_process_run es"

fun spawned :: "event list \<Rightarrow> string list" where
  "spawned [] = []"
| "spawned (Spawned p args # es) = p # spawned es"
| "spawned (ev # es) = spawned es"

fun suites_started :: "event list \<Rightarrow> string list" where
  "suites_started [] = []"
| "suites_started (Suite_started p # es) = p # suites_started es"
| "suites_started (ev # es) = suites_started es"

fun suites_finished :: "event list \<Rightarrow> string list" where
  "suites_finished [] = []"
| "suites_finished (Suite_finished p # es) = p # suites_finished es"
| "suites_finished (ev # es) = suites_finished es"

text \<open>The path an event concerns, and whether it concerns a test case.\<close>

fun event_path :: "event \<Rightarrow> string" where
  "event_path (Suite_started p) = p"
| "event_path (Suite_finished p) = p"
| "event_path (Test_started p) = p"
| "event_path (Test_finished p r) = p"
| "event_path (Summary fs n m) = []"
| "event_path (Dispatched p) = p"
| "event_path (In_process p) = p"
| "event_path (Spawned p args) = p"

fun is_test_event :: "event \<Rightarrow> bool" where
  "is_test_event (Test_started p) = True"
| "is_test_event (Test_finished p r) = True"
| "is_test_event (Dispatched p) = True"
| "is_test_event (In_process p) = True"
| "is_test_event (Spawned p args) = True"
| "is_test_event ev = False"

text \<open>A stretch of trace that holds only events of test cases with paths in a given set.\<close>

definition test_events :: "string set \<Rightarrow> event list \<Rightarrow> bool" where
  "test_events S es \<longleftrightarrow> (\<forall>ev \<in> set es. is_test_event ev \<and> event_path ev \<in> S)"

section \<open>Properties of a walk\<close>

text \<open>
  The counters agree with the trace: \<^verbatim>\<open>_tests\<close> is the number of tests dispatched,
  \<^verbatim>\<open>_passed\<close> the number of results with status passed, \<^verbatim>\<open>_failed\<close> is empty while
  no result is reported and, with a single worker, is the list of the results that did
  not pass with their paths, and a reported test was executed in this process exactly
  when its path is the filter.
\<close>

definition counted :: "runner \<Rightarrow> world \<Rightarrow> bool" where
  "counted rn w \<longleftrightarrow>
     r_tests w = length (dispatched (trace w))
   \<and> r_passed w = length (filter (\<lambda>pr. status (snd pr) = passed) (results (trace w)))
   \<and> (results (trace w) = [] \<longrightarrow> r_failed w = [])
   \<and> (threads rn = 1 \<longrightarrow>
        r_failed w =
          map (\<lambda>pr. (status (snd pr), fst pr))
            (filter (\<lambda>pr. status (snd pr) \<noteq> passed) (results (trace w))))
   \<and> in_process_run (trace w) = filter (\<lambda>p. p = test_name rn) (map fst (results (trace w)))
   \<and> spawned (trace w) = filter (\<lambda>p. p \<noteq> test_name rn) (map fst (results (trace w)))"

text \<open>
  What the workers of a pool may do between two states, with the queue before and after:
  they run whole tasks taken from the queue. The counters stay in agreement with the
  trace, nothing is dispatched, each task that left the queue has reported one result,
  and the trace grows by events of tests of the queue only.
\<close>

definition pool_step ::
  "runner \<Rightarrow> string list \<Rightarrow> testcase list \<Rightarrow> world \<Rightarrow> testcase list \<Rightarrow> world \<Rightarrow> bool" where
  "pool_step rn stk q w q' w' \<longleftrightarrow>
     (counted rn w \<longrightarrow> counted rn w')
   \<and> r_tests w' = r_tests w
   \<and> cout w' = cout w
   \<and> dispatched (trace w') = dispatched (trace w)
   \<and> mset (map fst (results (trace w'))) + mset (map (qualified_path stk) q')
       = mset (map fst (results (trace w))) + mset (map (qualified_path stk) q)
   \<and> (\<exists>es. trace w' = trace w @ es \<and> test_events (qualified_path stk ` set q) es)
   \<and> set q' \<subseteq> set q"

text \<open>The paths that pass the guard of the dispatch loop.\<close>

definition selected :: "runner \<Rightarrow> string list \<Rightarrow> string list" where
  "selected rn ps = filter (\<lambda>p. test_name rn = [] \<or> p = test_name rn) ps"

text \<open>
  What the block holding the pool does for the test cases \<open>ts\<close> still to be looked at,
  when the pool holds the queue \<open>q\<close>: the selected tests are dispatched in order, every
  test of the queue and every selected test has reported one result when the block ends,
  and the trace grows by events of these tests only.
\<close>

definition block_effect ::
  "runner \<Rightarrow> string list \<Rightarrow> testcase list \<Rightarrow> testcase list \<Rightarrow> world \<Rightarrow> world \<Rightarrow> bool" where
  "block_effect rn stk q ts w w' \<longleftrightarrow>
     (counted rn w \<longrightarrow> counted rn w')
   \<and> cout w' = cout w
   \<and> r_tests w' = r_tests w + length (selected rn (map (qualified_path stk) ts))
   \<and> dispatched (trace w') = dispatched (trace w) @ selected rn (map (qualified_path stk) ts)
   \<and> mset (map fst (results (trace w')))
       = mset (map fst (results (trace w))) + mset (map (qualified_path stk) q)
         + mset (selected rn (map (qualified_path stk) ts))
   \<and> (\<exists>es. trace w' = trace w @ es \<and> test_events (qualified_path stk ` (set q \<union> set ts)) es)"

text \<open>
  The qualified paths of the test cases of a suite and of its sub-suites, in the order in
  which the walk reaches them (sub-suites first), and the joined paths of the suite and
  its sub-suites, in the order in which the walk reaches them (the suite first).
\<close>

fun suite_tests :: "string list \<Rightarrow> suite \<Rightarrow> string list"
  and suites_tests :: "string list \<Rightarrow> suite list \<Rightarrow> string list" where
  "suite_tests stack (Suite n subs ts) =
     suites_tests (stack @ [n]) subs @ map (qualified_path (stack @ [n])) ts"
| "suites_tests stack [] = []"
| "suites_tests stack (s # ss) = suite_tests stack s @ suites_tests stack ss"

fun suite_paths :: "string list \<Rightarrow> suite \<Rightarrow> string list"
  and suites_paths :: "string list \<Rightarrow> suite list \<Rightarrow> string list" where
  "suite_paths stack (Suite n subs ts) =
     join (stack @ [n]) ''/'' # suites_paths (stack @ [n]) subs"
| "suites_paths stack [] = []"
| "suites_paths stack (s # ss) = suite_paths stack s @ suites_paths stack ss"

text \<open>The paths of suites that pass the test at the head of \<^verbatim>\<open>_handle_suite\<close>.\<close>

definition entered :: "runner \<Rightarrow> string list \<Rightarrow> string list" where
  "entered rn ps = filter (\<lambda>p. test_name rn = [] \<or> prefix p (test_name rn)) ps"

text \<open>
  What the walk over suites with the given test paths and suite paths does: the selected
  tests are dispatched in order and one result is reported for each; the suites entered
  have their start notified in order, and their finish.
\<close>

definition walk_effect :: "runner \<Rightarrow> string list \<Rightarrow> string list \<Rightarrow> world \<Rightarrow> world \<Rightarrow> bool" where
  "walk_effect rn tests paths w w' \<longleftrightarrow>
     (counted rn w \<longrightarrow> counted rn w')
   \<and> cout w' = cout w
   \<and> dispatched (trace w') = dispatched (trace w) @ selected rn tests
   \<and> mset (map fst (results (trace w')))
       = mset (map fst (results (trace w))) + mset (selected rn tests)
   \<and> suites_started (trace w') = suites_started (trace w) @ entered rn paths
   \<and> mset (suites_finished (trace w'))
       = mset (suites_finished (trace w)) + mset (entered rn paths)"

text \<open>
  What one call of \<^verbatim>\<open>_handle_suite\<close> appends for the suite with joined path \<open>p\<close>:
  nothing, or a stretch from the start of that suite to its finish; every event in it
  concerns a path that \<open>p\<close> starts.
\<close>

definition suite_block :: "string \<Rightarrow> event list \<Rightarrow> bool" where
  "suite_block p es \<longleftrightarrow>
     (es = [] \<or> (\<exists>mid. es = Suite_started p # mid @ [Suite_finished p]))
   \<and> (\<forall>ev \<in> set es. prefix p (event_path ev))"

text \<open>
  What one call of \<^verbatim>\<open>_handle_suite\<close> appends for a sub-suite: when the test at the head
  of the call lets the sub-suite in, a stretch from the notification of its start to that
  of its finish, and nothing otherwise; every event in it concerns a path that the path
  of the sub-suite starts; it holds the start and the finish of every suite entered at or
  below the sub-suite, the dispatch of every test at or below it that the filter selects,
  and one result for each test dispatched.
\<close>

definition child_block :: "runner \<Rightarrow> string list \<Rightarrow> suite \<Rightarrow> event list \<Rightarrow> bool" where
  "child_block rn stk s b \<longleftrightarrow>
     (if search (test_name rn) (join (stk @ [s_name s]) ''/'') = 0
      then \<exists>mid. b = Suite_started (join (stk @ [s_name s]) ''/'') # mid
                     @ [Suite_finished (join (stk @ [s_name s]) ''/'')]
      else b = [])
   \<and> (\<forall>ev \<in> set b. prefix (join (stk @ [s_name s]) ''/'') (event_path ev))
   \<and> suites_started b = entered rn (suite_paths stk s)
   \<and> mset (suites_finished b) = mset (suites_started b)
   \<and> dispatched b = selected rn (suite_tests stk s)
   \<and> mset (map fst (results b)) = mset (dispatched b)"

text \<open>
  The scope of a test case in the words of the spec, section 4.1: a test case is in scope
  when its qualified path equals the filter, or the filter is empty, or the filter is the
  path of a suite above it.
\<close>

definition spec_in_scope :: "string \<Rightarrow> string \<Rightarrow> bool" where
  "spec_in_scope f p \<longleftrightarrow> f = [] \<or> p = f \<or> prefix (f @ ''/'') p"

section \<open>Concrete inputs\<close>

text \<open>
  A tree with a nested suite, a failing test and a second top-level suite whose name
  extends the first one's; surroundings in which every child writes the same bytes and
  takes 2500000 ns, and an entry pushed to the list of failures by one of several workers
  is lost; a runner with a given number of workers and a given filter; the
  options of a command line that gives none.
\<close>

definition demo_tree :: "suite list" where
  "demo_tree =
     [Suite ''A''
        [Suite ''B'' [] [\<lparr>t_name = ''t'', t_body = Returns\<rparr>]]
        [\<lparr>t_name = ''t1'', t_body = Throws_std ''boom''\<rparr>, \<lparr>t_name = ''t2'', t_body = Returns\<rparr>],
      Suite ''AB'' [] [\<lparr>t_name = ''u'', t_body = Returns\<rparr>]]"

definition demo_env :: "string \<Rightarrow> bool \<Rightarrow> env" where
  "demo_env bytes flag =
     \<lparr>child = (\<lambda>args. \<lparr>c_output = bytes, c_timeout_flag = flag, c_elapsed_ns = 2500000\<rparr>),
      unsynchronised_push = (\<lambda>fs f. fs),
      registered = (\<lambda>r. r = ''console'' \<or> r = ''subprocess''),
      help_general = ''General'', help_config = ''Configuration''\<rparr>"

definition demo_runner :: "nat \<Rightarrow> string \<Rightarrow> runner" where
  "demo_runner n f =
     \<lparr>threads = n, limit = 0, timeout = 60, test_name = f, executable = ''./tests''\<rparr>"

definition demo_options :: options where
  "demo_options =
     \<lparr>o_help = False, o_version = False, o_tasks = None, o_test = None, o_reporter = [],
      o_quiet = False, o_timeout = None, o_error = False, argv0 = ''./tests''\<rparr>"

section \<open>Observations and paths\<close>

text \<open>Each observation of a trace is the observation of its parts, one after the other.\<close>

lemma dispatched_append [simp]: "dispatched (xs @ ys) = dispatched xs @ dispatched ys"
  by (induction xs rule: dispatched.induct) simp_all

lemma results_append [simp]: "results (xs @ ys) = results xs @ results ys"
  by (induction xs rule: results.induct) simp_all

lemma in_process_run_append [simp]:
  "in_process_run (xs @ ys) = in_process_run xs @ in_process_run ys"
  by (induction xs rule: in_process_run.induct) simp_all

lemma spawned_append [simp]: "spawned (xs @ ys) = spawned xs @ spawned ys"
  by (induction xs rule: spawned.induct) simp_all

lemma suites_started_append [simp]:
  "suites_started (xs @ ys) = suites_started xs @ suites_started ys"
  by (induction xs rule: suites_started.induct) simp_all

lemma suites_finished_append [simp]:
  "suites_finished (xs @ ys) = suites_finished xs @ suites_finished ys"
  by (induction xs rule: suites_finished.induct) simp_all

lemma test_events_append [simp]:
  "test_events S (xs @ ys) \<longleftrightarrow> test_events S xs \<and> test_events S ys"
  by (auto simp: test_events_def)

lemma test_events_Nil [simp]: "test_events S []"
  by (simp add: test_events_def)

lemma test_events_mono: "test_events S es \<Longrightarrow> S \<subseteq> T \<Longrightarrow> test_events T es"
  by (auto simp: test_events_def)

lemma test_events_no_suite:
  "test_events S es \<Longrightarrow> suites_started es = [] \<and> suites_finished es = []"
proof (induction es)
  case Nil
  then show ?case by simp
next
  case (Cons ev es)
  then show ?case by (cases ev) (simp_all add: test_events_def)
qed

text \<open>A suite is entered when the filter is empty or its joined path starts the filter.\<close>

lemma search_zero_iff: "search hay needle = 0 \<longleftrightarrow> hay = [] \<or> prefix needle hay"
  by (cases hay) simp_all

lemma join_snoc: "stk \<noteq> [] \<Longrightarrow> join (stk @ [n]) sep = join stk sep @ sep @ n"
  by (induction stk sep rule: join.induct) simp_all

section \<open>The protocol line\<close>

lemma getline_failed: "failbit s \<or> eofbit s \<Longrightarrow> fst (getline s []) = []"
  by (simp add: getline_def)

lemma getline_read: "fst (getline s []) \<noteq> [] \<Longrightarrow> \<not> failbit (snd (getline s []))"
  by (simp add: getline_def Let_def split: if_splits)

lemma decode_eq:
  "decode bytes =
     (let r = extract_uintmax \<lparr>buf = bytes, failbit = False, eofbit = False\<rparr>;
          g = getline (snd r) []
      in if fst g = [] then None else Some (failbit (snd g), fst r, tl (fst g)))"
  by (simp add: decode_def substr1_def Let_def split: prod.splits)

text \<open>The block is left by an exception exactly when no byte was read for the message.\<close>

lemma decode_None_iff:
  "decode bytes = None \<longleftrightarrow>
     fst (getline (snd (extract_uintmax \<lparr>buf = bytes, failbit = False, eofbit = False\<rparr>)) []) = []"
  by (simp add: decode_eq Let_def)

text \<open>Where the block is not left by an exception, the stream has not failed.\<close>

lemma decode_not_bad: "decode bytes = Some (bad, n, m) \<Longrightarrow> \<not> bad"
  using getline_read by (auto simp: decode_eq Let_def split: if_splits)

text \<open>Where no integer can be read, the block is left by an exception.\<close>

lemma decode_no_int:
  "failbit (snd (extract_uintmax \<lparr>buf = bytes, failbit = False, eofbit = False\<rparr>))
     \<Longrightarrow> decode bytes = None"
  by (simp add: decode_eq Let_def getline_failed)

lemma decode_empty: "decode [] = None"
  by (simp add: decode_eq Let_def extract_uintmax_def getline_def)

lemma status_isolated:
  "status (isolated e rn suite_stack t) =
     fst (read_result (child e (child_args rn (qualified_path suite_stack t))))"
  by (simp add: isolated_def Let_def split: prod.splits)

text \<open>Where the stream ends with the integer, the block is left by an exception.\<close>

lemma decode_eof:
  "eofbit (snd (extract_uintmax \<lparr>buf = bytes, failbit = False, eofbit = False\<rparr>))
     \<Longrightarrow> decode bytes = None"
  by (simp add: decode_eq Let_def getline_failed)

text \<open>Where the line ends with the integer, no byte is read for the message.\<close>

lemma getline_newline:
  assumes "\<not> failbit s" "\<not> eofbit s" "buf s = CHR 0x0A # rest"
  shows "fst (getline s []) = []"
  using assms by (simp add: getline_def Let_def)

text \<open>The streams of the examples.\<close>

lemma child_demo:
  "child (demo_env bytes flag) args =
     \<lparr>c_output = bytes, c_timeout_flag = flag, c_elapsed_ns = 2500000\<rparr>"
  by (simp add: demo_env_def)

lemma extract_demo:
  "extract_uintmax \<lparr>buf = ''7'', failbit = False, eofbit = False\<rparr>
     = (7, \<lparr>buf = [], failbit = False, eofbit = True\<rparr>)"
  "extract_uintmax \<lparr>buf = ''0'', failbit = False, eofbit = False\<rparr>
     = (0, \<lparr>buf = [], failbit = False, eofbit = True\<rparr>)"
  by (simp_all add: extract_uintmax_def Let_def isspace_def isdigit_def uintmax_max_def)

lemma decode_demo_none:
  "decode ''7'' = None" "decode ''0'' = None" "decode ''abc'' = None"
  by (simp_all add: decode_eq extract_uintmax_def getline_def Let_def isspace_def isdigit_def
        uintmax_max_def)

lemma decode_demo:
  "decode ''7 x'' = Some (False, 7, ''x'')"
  "decode ''0 '' = Some (False, 0, [])"
  by (simp_all add: decode_eq extract_uintmax_def getline_def Let_def isspace_def isdigit_def
        uintmax_max_def)

text \<open>
  C4 as stated fails. A child that writes \<open>7\<close> and is then killed by the watchdog: bytes
  were read and the integer 7 is outside 0..3, yet the status recorded is timed out, not
  crashed. A child that writes \<open>0\<close> and is then killed: the integer 0 was read, yet the
  flag decides and the status is timed out, not passed. A child that writes \<open>abc\<close> and
  is then killed: bytes were read and none is an integer, yet the status is timed out.
\<close>

theorem isolated_status_counterexample:
  "fst (extract_uintmax \<lparr>buf = ''7'', failbit = False, eofbit = False\<rparr>) = 7
   \<and> failbit (snd (extract_uintmax \<lparr>buf = ''7'', failbit = False, eofbit = False\<rparr>)) = False
   \<and> status (isolated (demo_env ''7'' True) (demo_runner 1 []) [''A'']
        \<lparr>t_name = ''t'', t_body = Returns\<rparr>) = timed_out
   \<and> fst (extract_uintmax \<lparr>buf = ''0'', failbit = False, eofbit = False\<rparr>) = 0
   \<and> failbit (snd (extract_uintmax \<lparr>buf = ''0'', failbit = False, eofbit = False\<rparr>)) = False
   \<and> status (isolated (demo_env ''0'' True) (demo_runner 1 []) [''A'']
        \<lparr>t_name = ''t'', t_body = Returns\<rparr>) = timed_out
   \<and> status (isolated (demo_env ''abc'' True) (demo_runner 1 []) [''A'']
        \<lparr>t_name = ''t'', t_body = Returns\<rparr>) = timed_out"
  by (simp add: status_isolated child_demo read_result_def decode_demo_none extract_demo)

text \<open>
  C4, as amended. The reads of the \<^verbatim>\<open>try\<close> block are left by an exception exactly when
  no byte is read for the message; that is so when the stream is empty, when no integer
  can be read, when the stream ends with the integer, and when the line ends with the
  integer. In that case, whatever integer was read, the status is timed out if the
  watchdog's flag is set and crashed otherwise. When a byte is read for the message, the
  flag is not consulted: an integer above 3 gives crashed, and any other integer gives
  the status with that code.
\<close>

theorem isolated_status_of_stream:
  "let obs = child e (child_args rn (qualified_path suite_stack t));
       st = status (isolated e rn suite_stack t);
       s1 = snd (extract_uintmax \<lparr>buf = c_output obs, failbit = False, eofbit = False\<rparr>)
   in (decode (c_output obs) = None \<longleftrightarrow> fst (getline s1 []) = [])
    \<and> (c_output obs = [] \<longrightarrow> decode (c_output obs) = None)
    \<and> (failbit s1 \<longrightarrow> decode (c_output obs) = None)
    \<and> (eofbit s1 \<longrightarrow> decode (c_output obs) = None)
    \<and> (\<not> failbit s1 \<and> \<not> eofbit s1 \<and> (\<exists>rest. buf s1 = CHR 0x0A # rest)
         \<longrightarrow> decode (c_output obs) = None)
    \<and> (decode (c_output obs) = None
         \<longrightarrow> st = (if c_timeout_flag obs then timed_out else crashed))
    \<and> (\<forall>bad n m. decode (c_output obs) = Some (bad, n, m)
         \<longrightarrow> st = (if 3 < n then crashed else status_of_code n))"
proof -
  define obs where "obs = child e (child_args rn (qualified_path suite_stack t))"
  define st where "st = status (isolated e rn suite_stack t)"
  define s1 where
    "s1 = snd (extract_uintmax \<lparr>buf = c_output obs, failbit = False, eofbit = False\<rparr>)"
  have st: "st = fst (read_result obs)"
    by (simp add: st_def obs_def status_isolated)
  have iff: "decode (c_output obs) = None \<longleftrightarrow> fst (getline s1 []) = []"
    unfolding s1_def by (rule decode_None_iff)
  have e: "c_output obs = [] \<longrightarrow> decode (c_output obs) = None"
    using decode_empty by simp
  have f: "failbit s1 \<longrightarrow> decode (c_output obs) = None"
    unfolding s1_def using decode_no_int by blast
  have g: "eofbit s1 \<longrightarrow> decode (c_output obs) = None"
    unfolding s1_def using decode_eof by blast
  have h: "\<not> failbit s1 \<and> \<not> eofbit s1 \<and> (\<exists>rest. buf s1 = CHR 0x0A # rest)
      \<longrightarrow> decode (c_output obs) = None"
  proof
    assume "\<not> failbit s1 \<and> \<not> eofbit s1 \<and> (\<exists>rest. buf s1 = CHR 0x0A # rest)"
    then have "fst (getline s1 []) = []"
      using getline_newline by blast
    with iff show "decode (c_output obs) = None"
      by simp
  qed
  have none: "decode (c_output obs) = None
      \<longrightarrow> st = (if c_timeout_flag obs then timed_out else crashed)"
    by (simp add: st read_result_def)
  have some: "\<forall>bad n m. decode (c_output obs) = Some (bad, n, m)
      \<longrightarrow> st = (if 3 < n then crashed else status_of_code n)"
  proof (intro allI impI)
    fix bad n m
    assume d: "decode (c_output obs) = Some (bad, n, m)"
    then show "st = (if 3 < n then crashed else status_of_code n)"
      using decode_not_bad [OF d] by (simp add: st read_result_def)
  qed
  show ?thesis
    unfolding Let_def obs_def [symmetric] st_def [symmetric] s1_def [symmetric]
    by (intro conjI) (rule iff e f g h none some)+
qed

text \<open>
  The amended C4 on the streams: empty, \<open>abc\<close>, \<open>7\<close> (each with the flag set or
  not), and with a message \<open>7 x\<close> and \<open>0 \<close> with the flag set.
\<close>

theorem isolated_status_of_stream_witness:
  "status (isolated (demo_env [] True) (demo_runner 1 []) [''A''] \<lparr>t_name = ''t'', t_body = Returns\<rparr>)
     = timed_out
   \<and> status (isolated (demo_env ''abc'' False) (demo_runner 1 []) [''A''] \<lparr>t_name = ''t'', t_body = Returns\<rparr>)
     = crashed
   \<and> status (isolated (demo_env ''abc'' True) (demo_runner 1 []) [''A''] \<lparr>t_name = ''t'', t_body = Returns\<rparr>)
     = timed_out
   \<and> status (isolated (demo_env ''7'' True) (demo_runner 1 []) [''A''] \<lparr>t_name = ''t'', t_body = Returns\<rparr>)
     = timed_out
   \<and> status (isolated (demo_env ''7'' False) (demo_runner 1 []) [''A''] \<lparr>t_name = ''t'', t_body = Returns\<rparr>)
     = crashed
   \<and> status (isolated (demo_env ''7 x'' True) (demo_runner 1 []) [''A''] \<lparr>t_name = ''t'', t_body = Returns\<rparr>)
     = crashed
   \<and> status (isolated (demo_env ''0 '' True) (demo_runner 1 []) [''A''] \<lparr>t_name = ''t'', t_body = Returns\<rparr>)
     = passed"
proof -
  let ?t = "\<lparr>t_name = ''t'', t_body = Returns\<rparr>"
  let ?rn = "demo_runner 1 []"
  have th:
    "(bytes = [] \<longrightarrow> decode bytes = None)
     \<and> (failbit (snd (extract_uintmax \<lparr>buf = bytes, failbit = False, eofbit = False\<rparr>))
          \<longrightarrow> decode bytes = None)
     \<and> (eofbit (snd (extract_uintmax \<lparr>buf = bytes, failbit = False, eofbit = False\<rparr>))
          \<longrightarrow> decode bytes = None)
     \<and> (decode bytes = None \<longrightarrow>
          status (isolated (demo_env bytes flag) ?rn [''A''] ?t)
            = (if flag then timed_out else crashed))
     \<and> (\<forall>bad n m. decode bytes = Some (bad, n, m) \<longrightarrow>
          status (isolated (demo_env bytes flag) ?rn [''A''] ?t)
            = (if 3 < n then crashed else status_of_code n))" for bytes flag
    using isolated_status_of_stream [of "demo_env bytes flag" ?rn "[''A'']" ?t]
    unfolding Let_def child_demo child_obs.select_convs
    by (elim conjE) (intro conjI; assumption)
  have none: "status (isolated (demo_env bytes flag) ?rn [''A''] ?t)
      = (if flag then timed_out else crashed)" if "decode bytes = None" for bytes flag
    using th [of bytes flag] that by blast
  have some: "status (isolated (demo_env bytes flag) ?rn [''A''] ?t)
      = (if 3 < n then crashed else status_of_code n)"
    if "decode bytes = Some (bad, n, m)" for bytes flag bad n m
    using th [of bytes flag] that by blast
  have "eofbit (snd (extract_uintmax \<lparr>buf = ''7'', failbit = False, eofbit = False\<rparr>))"
    by (simp add: extract_demo)
  with th [of "''7''"] have d7: "decode ''7'' = None"
    by blast
  have "failbit (snd (extract_uintmax \<lparr>buf = ''abc'', failbit = False, eofbit = False\<rparr>))"
    by (simp add: extract_uintmax_def Let_def isspace_def isdigit_def)
  with th [of "''abc''"] have dabc: "decode ''abc'' = None"
    by blast
  from th [of "[]"] have dnil: "decode [] = None"
    by blast
  show ?thesis
    using none [OF dnil, of True] none [OF dabc, of False] none [OF dabc, of True]
      none [OF d7, of True] none [OF d7, of False] some [OF decode_demo(1), of True]
      some [OF decode_demo(2), of True]
    by (simp add: status_of_code_def status_codes_def)
qed

section \<open>Tasks and the pool\<close>

text \<open>One task appends the mark of its execution and the two notifications of its test.\<close>

lemma execute_mark:
  "snd (execute e rn t stk) =
     (if qualified_path stk t = test_name rn then In_process (qualified_path stk t)
      else Spawned (qualified_path stk t) (child_args rn (qualified_path stk t)))"
  by (simp add: execute_def Let_def)

lemma task_trace:
  "trace (task e rn stk t w) = trace w @
     (if threads rn = 1
      then [Test_started (qualified_path stk t), snd (execute e rn t stk),
            Test_finished (qualified_path stk t) (fst (execute e rn t stk))]
      else [snd (execute e rn t stk), Test_started (qualified_path stk t),
            Test_finished (qualified_path stk t) (fst (execute e rn t stk))])"
  by (simp add: task_def run_test_def emit_def Let_def split: prod.splits)

lemma task_fields:
  "r_tests (task e rn stk t w) = r_tests w"
  "sched (task e rn stk t w) = sched w"
  "cout (task e rn stk t w) = cout w"
  "r_passed (task e rn stk t w) =
     r_passed w + (if status (fst (execute e rn t stk)) = passed then 1 else 0)"
  "threads rn = 1 \<Longrightarrow>
     r_failed (task e rn stk t w) =
       r_failed w @ (if status (fst (execute e rn t stk)) = passed then []
                     else [(status (fst (execute e rn t stk)), qualified_path stk t)])"
  by (simp_all add: task_def run_test_def emit_def Let_def split: prod.splits)

lemma task_obs:
  "dispatched (trace (task e rn stk t w)) = dispatched (trace w)"
  "results (trace (task e rn stk t w)) =
     results (trace w) @ [(qualified_path stk t, fst (execute e rn t stk))]"
  "in_process_run (trace (task e rn stk t w)) =
     in_process_run (trace w) @
       (if qualified_path stk t = test_name rn then [qualified_path stk t] else [])"
  "spawned (trace (task e rn stk t w)) =
     spawned (trace w) @
       (if qualified_path stk t = test_name rn then [] else [qualified_path stk t])"
  by (simp_all add: task_trace execute_mark)

lemma task_counted: "counted rn w \<Longrightarrow> counted rn (task e rn stk t w)"
  by (simp add: counted_def task_obs task_fields)

lemma task_ext:
  "\<exists>es. trace (task e rn stk t w) = trace w @ es \<and> test_events {qualified_path stk t} es"
  by (simp add: task_trace execute_mark test_events_def)

lemma worker_pick_less: "q \<noteq> [] \<Longrightarrow> worker_pick rn c (length q) < length q"
  by (simp add: worker_pick_def)

lemma mset_without_nth:
  "i < length q \<Longrightarrow> add_mset (q ! i) (mset (take i q @ drop (Suc i) q)) = mset q"
proof -
  assume "i < length q"
  then have "q = take i q @ q ! i # drop (Suc i) q"
    by (rule id_take_nth_drop)
  then have "mset q = mset (take i q @ q ! i # drop (Suc i) q)"
    by simp
  then show ?thesis
    by simp
qed

lemma set_without_nth: "set (take i q @ drop (Suc i) q) \<subseteq> set q"
  by (auto dest: in_set_takeD in_set_dropD)

lemma pool_step_refl: "pool_step rn stk q w q w"
  by (simp add: pool_step_def)

lemma pool_step_sched: "pool_step rn stk q w q (w\<lparr>sched := cs\<rparr>)"
  by (simp add: pool_step_def counted_def)

lemma pool_step_trans:
  assumes "pool_step rn stk q w q1 w1" and "pool_step rn stk q1 w1 q2 w2"
  shows "pool_step rn stk q w q2 w2"
proof -
  from assms obtain es1 es2 where
    es: "trace w1 = trace w @ es1" "test_events (qualified_path stk ` set q) es1"
        "trace w2 = trace w1 @ es2" "test_events (qualified_path stk ` set q1) es2"
    by (auto simp: pool_step_def)
  from assms have sub: "set q1 \<subseteq> set q"
    by (simp add: pool_step_def)
  then have "test_events (qualified_path stk ` set q) es2"
    using es(4) by (auto intro: test_events_mono)
  with es have "trace w2 = trace w @ (es1 @ es2) \<and> test_events (qualified_path stk ` set q) (es1 @ es2)"
    by simp
  then have ex: "\<exists>es. trace w2 = trace w @ es \<and> test_events (qualified_path stk ` set q) es"
    by blast
  from assms sub ex show ?thesis
    unfolding pool_step_def by auto
qed

lemma pool_step_task:
  assumes "i < length q"
  shows "pool_step rn stk q w (take i q @ drop (Suc i) q) (task e rn stk (q ! i) w)"
proof -
  from assms have m: "add_mset (q ! i) (mset (take i q @ drop (Suc i) q)) = mset q"
    by (rule mset_without_nth)
  have "image_mset (qualified_path stk) (mset q)
      = image_mset (qualified_path stk) (add_mset (q ! i) (mset (take i q @ drop (Suc i) q)))"
    by (simp only: m)
  then have paths: "mset (map (qualified_path stk) q)
      = add_mset (qualified_path stk (q ! i))
          (mset (map (qualified_path stk) (take i q @ drop (Suc i) q)))"
    by simp
  obtain es where es: "trace (task e rn stk (q ! i) w) = trace w @ es"
      "test_events {qualified_path stk (q ! i)} es"
    using task_ext by blast
  have "q ! i \<in> set q"
    using assms by simp
  then have "test_events (qualified_path stk ` set q) es"
    using es(2) by (auto intro: test_events_mono)
  with es(1) have ex: "\<exists>es. trace (task e rn stk (q ! i) w) = trace w @ es
      \<and> test_events (qualified_path stk ` set q) es"
    by blast
  have res: "mset (map fst (results (trace (task e rn stk (q ! i) w))))
        + mset (map (qualified_path stk) (take i q @ drop (Suc i) q))
      = mset (map fst (results (trace w))) + mset (map (qualified_path stk) q)"
    by (simp only: paths task_obs) simp
  show ?thesis
    unfolding pool_step_def
    using ex res set_without_nth [of i q]
    by (simp add: task_counted task_fields task_obs(1))
qed

lemma workers_step:
  "workers e rn stk cs q w = (cs', q', w') \<Longrightarrow> pool_step rn stk q w q' w'"
proof (induction cs arbitrary: q w)
  case Nil
  then show ?case by (simp add: pool_step_refl)
next
  case (Cons c cs)
  show ?case
  proof (cases "c = 0 \<or> q = []")
    case True
    with Cons.prems show ?thesis by (auto simp: pool_step_refl)
  next
    case False
    define i where "i = worker_pick rn (c - 1) (length q)"
    from False have i: "i < length q"
      by (simp add: i_def worker_pick_less)
    from False Cons.prems have
      "workers e rn stk cs (take i q @ drop (Suc i) q) (task e rn stk (q ! i) w) = (cs', q', w')"
      by (simp add: i_def Let_def)
    then have "pool_step rn stk (take i q @ drop (Suc i) q) (task e rn stk (q ! i) w) q' w'"
      by (rule Cons.IH)
    with pool_step_task [OF i] show ?thesis
      by (rule pool_step_trans)
  qed
qed

lemma push_step:
  "push e rn stk t q w = (q', w') \<Longrightarrow> pool_step rn stk (q @ [t]) w q' w'"
proof -
  assume a: "push e rn stk t q w = (q', w')"
  obtain cs q1 w1 where wk: "workers e rn stk (sched w) (q @ [t]) w = (cs, q1, w1)"
    by (cases "workers e rn stk (sched w) (q @ [t]) w") auto
  with a have eq: "q' = q1" "w' = w1\<lparr>sched := cs\<rparr>"
    by (simp_all add: push_def)
  from wk have "pool_step rn stk (q @ [t]) w q1 w1"
    by (rule workers_step)
  moreover have "pool_step rn stk q1 w1 q1 (w1\<lparr>sched := cs\<rparr>)"
    by (rule pool_step_sched)
  ultimately show ?thesis
    unfolding eq by (rule pool_step_trans)
qed

declare drain.simps [simp del]

lemma drain_Nil: "drain e rn stk [] w = w"
  by (simp add: drain.simps)

lemma drain_step: "pool_step rn stk q w [] (drain e rn stk q w)"
proof (induction e rn stk q w rule: drain.induct)
  case (1 e rn stk q w)
  show ?case
  proof (cases "q = []")
    case True
    then show ?thesis
      by (simp add: drain_Nil pool_step_refl)
  next
    case False
    define c where "c = (case sched w of [] \<Rightarrow> 0 | c # cs \<Rightarrow> c)"
    define w1 where "w1 = w\<lparr>sched := tl (sched w)\<rparr>"
    define i where "i = worker_pick rn c (length q)"
    from False have i: "i < length q"
      by (simp add: i_def worker_pick_less)
    have eq: "drain e rn stk q w
        = drain e rn stk (take i q @ drop (Suc i) q) (task e rn stk (q ! i) w1)"
      using False by (simp add: drain.simps [of e rn stk q w] Let_def c_def w1_def i_def)
    have "pool_step rn stk (take i q @ drop (Suc i) q) (task e rn stk (q ! i) w1) []
        (drain e rn stk (take i q @ drop (Suc i) q) (task e rn stk (q ! i) w1))"
      using False by (intro "1.IH") (simp_all add: c_def w1_def i_def)
    with pool_step_task [OF i] have "pool_step rn stk q w1 []
        (drain e rn stk (take i q @ drop (Suc i) q) (task e rn stk (q ! i) w1))"
      by (rule pool_step_trans)
    with pool_step_sched [of rn stk q w "tl (sched w)"] show ?thesis
      unfolding eq w1_def by (rule pool_step_trans)
  qed
qed

lemma selected_simps [simp]:
  "selected rn [] = []"
  "selected rn (p # ps) = (if test_name rn = [] \<or> p = test_name rn then p # selected rn ps else selected rn ps)"
  "selected rn (ps @ qs) = selected rn ps @ selected rn qs"
  by (simp_all add: selected_def)

lemma test_events_Cons [simp]:
  "test_events S (ev # es) \<longleftrightarrow> is_test_event ev \<and> event_path ev \<in> S \<and> test_events S es"
  by (auto simp: test_events_def)

lemma block_effect_drain: "block_effect rn stk q [] w (drain e rn stk q w)"
  using drain_step [of rn stk q w e]
  by (auto simp: block_effect_def pool_step_def)

lemma block_effect_skip:
  assumes "test_name rn \<noteq> []" "qualified_path stk t \<noteq> test_name rn"
    and "block_effect rn stk q ts w w'"
  shows "block_effect rn stk q (t # ts) w w'"
proof -
  from assms(3) obtain es where es: "trace w' = trace w @ es"
      "test_events (qualified_path stk ` (set q \<union> set ts)) es"
    by (auto simp: block_effect_def)
  then have "test_events (qualified_path stk ` (set q \<union> set (t # ts))) es"
    by (auto intro: test_events_mono)
  with es(1) have "\<exists>es. trace w' = trace w @ es
      \<and> test_events (qualified_path stk ` (set q \<union> set (t # ts))) es"
    by blast
  with assms show ?thesis
    unfolding block_effect_def by simp
qed

lemma counted_dispatch:
  "counted rn w \<Longrightarrow> counted rn (emit (Dispatched p) (w\<lparr>r_tests := r_tests w + 1\<rparr>))"
  by (simp add: counted_def emit_def)

lemma block_effect_push:
  assumes sel: "test_name rn = [] \<or> qualified_path stk t = test_name rn"
    and w1: "w1 = emit (Dispatched (qualified_path stk t)) (w\<lparr>r_tests := r_tests w + 1\<rparr>)"
    and st: "pool_step rn stk (q @ [t]) w1 q' w2"
    and be: "block_effect rn stk q' ts w2 w'"
  shows "block_effect rn stk q (t # ts) w w'"
proof -
  let ?qn = "qualified_path stk"
  have tr1: "trace w1 = trace w @ [Dispatched (?qn t)]"
    by (simp add: w1 emit_def)
  from st obtain es1 where es1: "trace w2 = trace w1 @ es1"
      "test_events (?qn ` set (q @ [t])) es1"
    by (auto simp: pool_step_def)
  from be obtain es2 where es2: "trace w' = trace w2 @ es2"
      "test_events (?qn ` (set q' \<union> set ts)) es2"
    by (auto simp: block_effect_def)
  from st have sub: "set q' \<subseteq> set (q @ [t])"
    by (simp add: pool_step_def)
  let ?S = "?qn ` (set q \<union> set (t # ts))"
  have "test_events ?S [Dispatched (?qn t)]"
    by (simp add: test_events_def)
  moreover have "test_events ?S es1"
    using es1(2) by (rule test_events_mono) auto
  moreover have "test_events ?S es2"
    using es2(2) sub by (intro test_events_mono [of _ es2 ?S]) auto
  ultimately have "trace w' = trace w @ ([Dispatched (?qn t)] @ es1 @ es2)
      \<and> test_events ?S ([Dispatched (?qn t)] @ es1 @ es2)"
    using tr1 es1(1) es2(1) by simp
  then have ex: "\<exists>es. trace w' = trace w @ es \<and> test_events ?S es"
    by blast
  have "counted rn w \<Longrightarrow> counted rn w1"
    unfolding w1 by (rule counted_dispatch)
  moreover have "counted rn w1 \<Longrightarrow> counted rn w2"
    using st by (simp add: pool_step_def)
  moreover have "counted rn w2 \<Longrightarrow> counted rn w'"
    using be by (simp add: block_effect_def)
  ultimately have c: "counted rn w \<longrightarrow> counted rn w'"
    by blast
  have co: "cout w' = cout w"
    using st be by (simp add: pool_step_def block_effect_def w1 emit_def)
  have n: "r_tests w' = r_tests w + length (selected rn (map ?qn (t # ts)))"
    using st be sel by (auto simp: pool_step_def block_effect_def w1 emit_def)
  have d: "dispatched (trace w') = dispatched (trace w) @ selected rn (map ?qn (t # ts))"
    using st be sel by (auto simp: pool_step_def block_effect_def tr1)
  have "mset (map fst (results (trace w'))) =
      mset (map fst (results (trace w2))) + mset (map ?qn q') + mset (selected rn (map ?qn ts))"
    using be by (simp add: block_effect_def)
  also have "mset (map fst (results (trace w2))) + mset (map ?qn q')
      = mset (map fst (results (trace w1))) + mset (map ?qn (q @ [t]))"
    using st by (simp add: pool_step_def)
  also have "mset (map fst (results (trace w1))) = mset (map fst (results (trace w)))"
    by (simp add: tr1)
  finally have r: "mset (map fst (results (trace w'))) =
      mset (map fst (results (trace w))) + mset (map ?qn q) + mset (selected rn (map ?qn (t # ts)))"
    using sel by auto
  from c co n d r ex show ?thesis
    unfolding block_effect_def by blast
qed

lemma dispatch_effect: "block_effect rn stk q ts w (dispatch e rn stk ts q w)"
proof (induction ts arbitrary: q w)
  case Nil
  show ?case by (simp add: block_effect_drain)
next
  case (Cons t ts)
  show ?case
  proof (cases "test_name rn \<noteq> [] \<and> qualified_path stk t \<noteq> test_name rn")
    case True
    with Cons.IH [of q w] show ?thesis
      by (simp add: block_effect_skip)
  next
    case False
    define w1 where "w1 = emit (Dispatched (qualified_path stk t)) (w\<lparr>r_tests := r_tests w + 1\<rparr>)"
    obtain q' w2 where p: "push e rn stk t q w1 = (q', w2)"
      by (cases "push e rn stk t q w1") auto
    from False have sel: "test_name rn = [] \<or> qualified_path stk t = test_name rn"
      by blast
    with p have eq: "dispatch e rn stk (t # ts) q w = dispatch e rn stk ts q' w2"
      by (auto simp: w1_def Let_def)
    show ?thesis
      unfolding eq
      using sel w1_def push_step [OF p] Cons.IH [of q' w2]
      by (rule block_effect_push)
  qed
qed

lemma entered_simps [simp]:
  "entered rn [] = []"
  "entered rn (p # ps) =
     (if test_name rn = [] \<or> prefix p (test_name rn) then p # entered rn ps else entered rn ps)"
  "entered rn (ps @ qs) = entered rn ps @ entered rn qs"
  by (simp_all add: entered_def)

lemma prefix_join_snoc: "stk \<noteq> [] \<Longrightarrow> prefix (join stk sep) (join (stk @ [n]) sep)"
  by (simp add: join_snoc)

lemma prefix_qualified_path: "prefix (join stk ''/'') (qualified_path stk t)"
  by (simp add: qualified_path_def)

lemma paths_under:
  "q \<in> set (suite_paths stk s) \<Longrightarrow> prefix (join (stk @ [s_name s]) ''/'') q"
  "q \<in> set (suites_paths stk ss) \<Longrightarrow> \<exists>s \<in> set ss. prefix (join (stk @ [s_name s]) ''/'') q"
proof (induction stk s and stk ss arbitrary: q and q rule: suite_paths_suites_paths.induct)
  case (1 stack n subs ts)
  show ?case
  proof (cases "q = join (stack @ [n]) ''/''")
    case True
    then show ?thesis by simp
  next
    case False
    with "1.prems" have "q \<in> set (suites_paths (stack @ [n]) subs)"
      by simp
    then obtain s where "s \<in> set subs" "prefix (join ((stack @ [n]) @ [s_name s]) ''/'') q"
      using "1.IH" by blast
    moreover have "prefix (join (stack @ [n]) ''/'') (join ((stack @ [n]) @ [s_name s]) ''/'')"
      by (rule prefix_join_snoc) simp
    ultimately show ?thesis
      by (auto intro: prefix_order.trans)
  qed
next
  case (2 stack)
  then show ?case by simp
next
  case (3 stack s ss)
  then show ?case by auto
qed

lemma tests_under:
  "q \<in> set (suite_tests stk s) \<Longrightarrow> prefix (join (stk @ [s_name s]) ''/'') q"
  "q \<in> set (suites_tests stk ss) \<Longrightarrow> \<exists>s \<in> set ss. prefix (join (stk @ [s_name s]) ''/'') q"
proof (induction stk s and stk ss arbitrary: q and q rule: suite_tests_suites_tests.induct)
  case (1 stack n subs ts)
  from "1.prems" consider
    "q \<in> set (suites_tests (stack @ [n]) subs)" | "q \<in> qualified_path (stack @ [n]) ` set ts"
    by auto
  then show ?case
  proof cases
    case 1
    then obtain s where "s \<in> set subs" "prefix (join ((stack @ [n]) @ [s_name s]) ''/'') q"
      using "1.IH" by blast
    moreover have "prefix (join (stack @ [n]) ''/'') (join ((stack @ [n]) @ [s_name s]) ''/'')"
      by (rule prefix_join_snoc) simp
    ultimately show ?thesis
      by (auto intro: prefix_order.trans)
  next
    case 2
    then show ?thesis
      by (auto simp: prefix_qualified_path)
  qed
next
  case (2 stack)
  then show ?case by simp
next
  case (3 stack s ss)
  then show ?case by auto
qed

text \<open>Below a suite that is not entered there is nothing the filter selects.\<close>

lemma pruned_nothing:
  assumes "test_name rn \<noteq> []" "\<not> prefix (join (stk @ [s_name s]) ''/'') (test_name rn)"
  shows "selected rn (suite_tests stk s) = []" "entered rn (suite_paths stk s) = []"
proof -
  have "q \<noteq> test_name rn" if "q \<in> set (suite_tests stk s)" for q
    using tests_under(1) [OF that] assms(2) by auto
  with assms(1) show "selected rn (suite_tests stk s) = []"
    by (auto simp: selected_def filter_empty_conv)
  have "\<not> prefix q (test_name rn)" if "q \<in> set (suite_paths stk s)" for q
    using paths_under(1) [OF that] assms(2) by (auto dest: prefix_order.trans)
  with assms(1) show "entered rn (suite_paths stk s) = []"
    by (auto simp: entered_def filter_empty_conv)
qed

lemma walk_effect_refl: "walk_effect rn [] [] w w"
  by (simp add: walk_effect_def)

lemma walk_effect_trans:
  "walk_effect rn ts1 ps1 w w1 \<Longrightarrow> walk_effect rn ts2 ps2 w1 w2
     \<Longrightarrow> walk_effect rn (ts1 @ ts2) (ps1 @ ps2) w w2"
  by (simp add: walk_effect_def)

lemma counted_emit_suite:
  "counted rn (emit (Suite_started p) w) = counted rn w"
  "counted rn (emit (Suite_finished p) w) = counted rn w"
  by (simp_all add: counted_def emit_def)

lemma walk_effect_block:
  assumes "block_effect rn stk [] ts w w'"
  shows "walk_effect rn (map (qualified_path stk) ts) [] w w'"
proof -
  from assms obtain es where "trace w' = trace w @ es" "test_events (qualified_path stk ` set ts) es"
    by (auto simp: block_effect_def)
  then have "suites_started (trace w') = suites_started (trace w)"
      "suites_finished (trace w') = suites_finished (trace w)"
    using test_events_no_suite [of _ es] by simp_all
  with assms show ?thesis
    by (simp add: walk_effect_def block_effect_def)
qed

lemma walk_effect_suite:
  assumes ent: "test_name rn = [] \<or> prefix p (test_name rn)"
    and subs: "walk_effect rn tests paths (emit (Suite_started p) w) w2"
    and own: "walk_effect rn own [] w2 w3"
  shows "walk_effect rn (tests @ own) (p # paths) w (emit (Suite_finished p) w3)"
proof -
  have c: "counted rn w \<longrightarrow> counted rn (emit (Suite_finished p) w3)"
    using subs own by (simp add: walk_effect_def counted_emit_suite)
  have started: "suites_started (trace (emit (Suite_finished p) w3))
      = suites_started (trace w) @ entered rn (p # paths)"
    using subs own ent by (auto simp: walk_effect_def emit_def)
  have finished: "mset (suites_finished (trace (emit (Suite_finished p) w3)))
      = mset (suites_finished (trace w)) + mset (entered rn (p # paths))"
    using subs own ent by (auto simp: walk_effect_def emit_def)
  have rest: "cout (emit (Suite_finished p) w3) = cout w"
    "dispatched (trace (emit (Suite_finished p) w3)) = dispatched (trace w) @ selected rn (tests @ own)"
    "mset (map fst (results (trace (emit (Suite_finished p) w3))))
       = mset (map fst (results (trace w))) + mset (selected rn (tests @ own))"
    using subs own by (simp_all add: walk_effect_def emit_def)
  from c started finished rest show ?thesis
    unfolding walk_effect_def by blast
qed

lemma handle_suites_walk:
  assumes "\<And>s stk w. s \<in> set ss \<Longrightarrow>
      walk_effect rn (suite_tests stk s) (suite_paths stk s) w (handle_suite e rn s stk w)"
  shows "walk_effect rn (suites_tests stk ss) (suites_paths stk ss) w (handle_suites e rn ss stk w)"
  using assms
proof (induction ss arbitrary: w)
  case Nil
  show ?case by (simp add: walk_effect_refl)
next
  case (Cons s ss)
  have "walk_effect rn (suite_tests stk s) (suite_paths stk s) w (handle_suite e rn s stk w)"
    by (rule Cons.prems) simp
  moreover have "walk_effect rn (suites_tests stk ss) (suites_paths stk ss)
      (handle_suite e rn s stk w) (handle_suites e rn ss stk (handle_suite e rn s stk w))"
    by (rule Cons.IH) (simp add: Cons.prems)
  ultimately show ?case
    by (simp add: walk_effect_trans)
qed

lemma handle_suite_walk:
  "walk_effect rn (suite_tests stk s) (suite_paths stk s) w (handle_suite e rn s stk w)"
proof (induction s arbitrary: stk w)
  case (Suite n subs ts)
  let ?p = "join (stk @ [n]) ''/''"
  show ?case
  proof (cases "search (test_name rn) ?p = 0")
    case False
    then have pr: "test_name rn \<noteq> []" "\<not> prefix (join (stk @ [s_name (Suite n subs ts)]) ''/'') (test_name rn)"
      by (simp_all add: search_zero_iff)
    from False have "handle_suite e rn (Suite n subs ts) stk w = w"
      by (simp add: Let_def)
    then show ?thesis
      using pruned_nothing [OF pr] by (simp add: walk_effect_def)
  next
    case True
    then have ent: "test_name rn = [] \<or> prefix ?p (test_name rn)"
      by (simp add: search_zero_iff)
    define w1 where "w1 = emit (Suite_started ?p) w"
    define w2 where "w2 = handle_suites e rn subs (stk @ [n]) w1"
    define w3 where "w3 = dispatch e rn (stk @ [n]) ts [] w2"
    from True have eq: "handle_suite e rn (Suite n subs ts) stk w = emit (Suite_finished ?p) w3"
      by (simp add: Let_def w1_def w2_def w3_def)
    have "walk_effect rn (suites_tests (stk @ [n]) subs) (suites_paths (stk @ [n]) subs) w1 w2"
      unfolding w2_def by (rule handle_suites_walk) (rule Suite.IH)
    moreover have "walk_effect rn (map (qualified_path (stk @ [n])) ts) [] w2 w3"
      unfolding w3_def by (rule walk_effect_block) (rule dispatch_effect)
    ultimately show ?thesis
      unfolding eq w1_def using ent by (simp add: walk_effect_suite)
  qed
qed

lemma runner_call_walk:
  "walk_effect rn (suites_tests [] suites) (suites_paths [] suites) w (runner_call e rn suites w)"
  unfolding runner_call_def by (rule handle_suites_walk) (rule handle_suite_walk)

section \<open>The walk from the initial state\<close>

lemma counted_initial: "counted rn (initial schedule)"
  by (simp add: counted_def initial_def)

lemma walk_initial:
  assumes "w = runner_call e rn suites (initial schedule)"
  shows "counted rn w"
    and "cout w = []"
    and "dispatched (trace w) = selected rn (suites_tests [] suites)"
    and "mset (map fst (results (trace w))) = mset (selected rn (suites_tests [] suites))"
    and "suites_started (trace w) = entered rn (suites_paths [] suites)"
    and "mset (suites_finished (trace w)) = mset (entered rn (suites_paths [] suites))"
  using runner_call_walk [of rn suites "initial schedule" e] counted_initial [of rn schedule]
  unfolding assms walk_effect_def by (simp_all add: initial_def)

lemma all_passed_iff:
  "length (filter P xs) = length xs \<longleftrightarrow> (\<forall>x \<in> set xs. P x)"
  by (metis filter_True filter_id_conv length_filter_less order_less_irrefl)

section \<open>The trace of an entered suite\<close>

lemma test_events_under:
  assumes "test_events (qualified_path stk ` set ts) es" "ev \<in> set es"
  shows "prefix (join stk ''/'') (event_path ev)"
  using assms by (auto simp: test_events_def prefix_qualified_path)

lemma suite_block_Nil: "suite_block p []"
  by (simp add: suite_block_def)

lemma handle_suites_blocks:
  assumes "\<And>s w. s \<in> set ss \<Longrightarrow>
      \<exists>es. trace (handle_suite e rn s stk w) = trace w @ es
        \<and> suite_block (join (stk @ [s_name s]) ''/'') es"
  shows "\<exists>blocks. trace (handle_suites e rn ss stk w) = trace w @ concat blocks
      \<and> list_all2 (\<lambda>s b. suite_block (join (stk @ [s_name s]) ''/'') b) ss blocks"
  using assms
proof (induction ss arbitrary: w)
  case Nil
  then show ?case by simp
next
  case (Cons s ss)
  obtain es where es: "trace (handle_suite e rn s stk w) = trace w @ es"
      "suite_block (join (stk @ [s_name s]) ''/'') es"
    using Cons.prems [of s w] by auto
  obtain blocks where bs:
      "trace (handle_suites e rn ss stk (handle_suite e rn s stk w))
         = trace (handle_suite e rn s stk w) @ concat blocks"
      "list_all2 (\<lambda>s b. suite_block (join (stk @ [s_name s]) ''/'') b) ss blocks"
    using Cons.IH [of "handle_suite e rn s stk w"] Cons.prems by auto
  from es bs have "trace (handle_suites e rn (s # ss) stk w) = trace w @ concat (es # blocks)
      \<and> list_all2 (\<lambda>s b. suite_block (join (stk @ [s_name s]) ''/'') b) (s # ss) (es # blocks)"
    by simp
  then show ?case
    by blast
qed

lemma blocks_under:
  assumes "list_all2 (\<lambda>s b. suite_block (join ((stk @ [n]) @ [s_name s]) ''/'') b) ss blocks"
    and "ev \<in> set (concat blocks)"
  shows "prefix (join (stk @ [n]) ''/'') (event_path ev)"
proof -
  from assms(2) obtain b where b: "b \<in> set blocks" "ev \<in> set b"
    by auto
  then obtain i where i: "i < length blocks" "blocks ! i = b"
    by (auto simp: in_set_conv_nth)
  with assms(1) have "suite_block (join ((stk @ [n]) @ [s_name (ss ! i)]) ''/'') b"
    by (auto simp: list_all2_conv_all_nth)
  with b(2) have "prefix (join ((stk @ [n]) @ [s_name (ss ! i)]) ''/'') (event_path ev)"
    by (simp add: suite_block_def)
  moreover have "prefix (join (stk @ [n]) ''/'') (join ((stk @ [n]) @ [s_name (ss ! i)]) ''/'')"
    by (rule prefix_join_snoc) simp
  ultimately show ?thesis
    by (rule prefix_order.trans [rotated])
qed

text \<open>The trace of one entered suite, taken apart.\<close>

lemma entered_suite_trace:
  assumes ent: "test_name rn = [] \<or> prefix (join (stk @ [n]) ''/'') (test_name rn)"
    and subs: "\<And>s w. s \<in> set subs \<Longrightarrow>
      \<exists>es. trace (handle_suite e rn s (stk @ [n]) w) = trace w @ es
        \<and> suite_block (join ((stk @ [n]) @ [s_name s]) ''/'') es"
  shows "\<exists>blocks own.
      trace (handle_suite e rn (Suite n subs ts) stk w)
        = trace w @ [Suite_started (join (stk @ [n]) ''/'')] @ concat blocks @ own
            @ [Suite_finished (join (stk @ [n]) ''/'')]
    \<and> trace (handle_suites e rn subs (stk @ [n]) (emit (Suite_started (join (stk @ [n]) ''/'')) w))
        = trace w @ [Suite_started (join (stk @ [n]) ''/'')] @ concat blocks
    \<and> list_all2 (\<lambda>s b. suite_block (join ((stk @ [n]) @ [s_name s]) ''/'') b) subs blocks
    \<and> test_events (qualified_path (stk @ [n]) ` set ts) own
    \<and> dispatched own = selected rn (map (qualified_path (stk @ [n])) ts)
    \<and> mset (map fst (results own)) = mset (dispatched own)"
proof -
  let ?p = "join (stk @ [n]) ''/''"
  define w1 where "w1 = emit (Suite_started ?p) w"
  define w2 where "w2 = handle_suites e rn subs (stk @ [n]) w1"
  define w3 where "w3 = dispatch e rn (stk @ [n]) ts [] w2"
  from ent have "search (test_name rn) ?p = 0"
    by (simp add: search_zero_iff)
  then have eq: "handle_suite e rn (Suite n subs ts) stk w = emit (Suite_finished ?p) w3"
    by (simp add: Let_def w1_def w2_def w3_def)
  obtain blocks where bs: "trace w2 = trace w1 @ concat blocks"
      "list_all2 (\<lambda>s b. suite_block (join ((stk @ [n]) @ [s_name s]) ''/'') b) subs blocks"
    unfolding w2_def using handle_suites_blocks [of subs e rn "stk @ [n]" w1] subs by blast
  have be: "block_effect rn (stk @ [n]) [] ts w2 w3"
    unfolding w3_def by (rule dispatch_effect)
  then obtain own where own: "trace w3 = trace w2 @ own"
      "test_events (qualified_path (stk @ [n]) ` set ts) own"
    by (auto simp: block_effect_def)
  from be have "dispatched (trace w3)
      = dispatched (trace w2) @ selected rn (map (qualified_path (stk @ [n])) ts)"
    by (simp add: block_effect_def)
  then have d: "dispatched own = selected rn (map (qualified_path (stk @ [n])) ts)"
    by (simp add: own(1))
  from be have "mset (map fst (results (trace w3)))
      = mset (map fst (results (trace w2))) + mset (selected rn (map (qualified_path (stk @ [n])) ts))"
    by (simp add: block_effect_def)
  then have r: "mset (map fst (results own)) = mset (dispatched own)"
    by (simp add: own(1) d)
  have t1: "trace w1 = trace w @ [Suite_started ?p]"
    by (simp add: w1_def emit_def)
  have "trace (emit (Suite_finished ?p) w3)
      = trace w @ [Suite_started ?p] @ concat blocks @ own @ [Suite_finished ?p]"
    by (simp add: emit_def own(1) bs(1) t1)
  moreover have "trace w2 = trace w @ [Suite_started ?p] @ concat blocks"
    by (simp add: bs(1) t1)
  ultimately show ?thesis
    unfolding eq using bs(2) own(2) d r
    unfolding w2_def w1_def by blast
qed

lemma handle_suite_block:
  "\<exists>es. trace (handle_suite e rn s stk w) = trace w @ es
     \<and> suite_block (join (stk @ [s_name s]) ''/'') es"
proof (induction s arbitrary: stk w)
  case (Suite n subs ts)
  let ?p = "join (stk @ [n]) ''/''"
  show ?case
  proof (cases "search (test_name rn) ?p = 0")
    case False
    then have "handle_suite e rn (Suite n subs ts) stk w = w"
      by (simp add: Let_def)
    then show ?thesis
      by (simp add: suite_block_Nil)
  next
    case True
    then have ent: "test_name rn = [] \<or> prefix ?p (test_name rn)"
      by (simp add: search_zero_iff)
    obtain blocks own where tr:
      "trace (handle_suite e rn (Suite n subs ts) stk w)
         = trace w @ [Suite_started ?p] @ concat blocks @ own @ [Suite_finished ?p]"
      and bs: "list_all2 (\<lambda>s b. suite_block (join ((stk @ [n]) @ [s_name s]) ''/'') b) subs blocks"
      and own: "test_events (qualified_path (stk @ [n]) ` set ts) own"
      using entered_suite_trace [OF ent, of subs e ts w] Suite.IH by blast
    let ?es = "[Suite_started ?p] @ concat blocks @ own @ [Suite_finished ?p]"
    have "prefix ?p (event_path ev)" if "ev \<in> set ?es" for ev
    proof -
      from that consider "ev = Suite_started ?p" | "ev = Suite_finished ?p"
        | "ev \<in> set (concat blocks)" | "ev \<in> set own"
        by auto
      then show ?thesis
      proof cases
        case 3
        with bs show ?thesis by (rule blocks_under)
      next
        case 4
        with own show ?thesis by (rule test_events_under)
      qed simp_all
    qed
    then have "suite_block ?p ?es"
      unfolding suite_block_def by auto
    with tr show ?thesis
      by auto
  qed
qed

section \<open>The exit code\<close>

lemma run_walks:
  assumes "\<not> o_help opts" "\<not> o_version opts" "list_all (registered e) (reporters_of opts)"
    and "test_name (runner_of opts) = [] \<or> CHR ''/'' \<in> set (test_name (runner_of opts))"
    and "w1 = runner_call e (runner_of opts) suites (initial schedule)"
  shows "run e suites opts schedule =
     (if r_passed w1 = r_tests w1 then Return 0 else Return 1,
      emit (Summary (r_failed w1) (r_passed w1) (r_tests w1)) w1)"
  using assms by (auto simp: run_def Let_def emit_def)

lemma run_info:
  assumes "o_help opts \<or> o_version opts"
  shows "fst (run e suites opts schedule) = Return 0"
    and "trace (snd (run e suites opts schedule)) = []"
    and "r_tests (snd (run e suites opts schedule)) = 0"
    and "r_passed (snd (run e suites opts schedule)) = 0"
    and "r_failed (snd (run e suites opts schedule)) = []"
  using assms by (auto simp: run_def Let_def initial_def)

lemma results_all:
  assumes "counted rn w" "mset (map fst (results (trace w))) = mset (dispatched (trace w))"
  shows "r_passed w = r_tests w \<longleftrightarrow> (\<forall>pr \<in> set (results (trace w)). status (snd pr) = passed)"
proof -
  from assms(2) have "length (map fst (results (trace w))) = length (dispatched (trace w))"
    by (rule mset_eq_length)
  with assms(1) have "r_tests w = length (results (trace w))"
    by (simp add: counted_def)
  moreover from assms(1) have
    "r_passed w = length (filter (\<lambda>pr. status (snd pr) = passed) (results (trace w)))"
    by (simp add: counted_def)
  ultimately show ?thesis
    by (simp add: all_passed_iff)
qed

lemma filter_eq_distinct: "distinct xs \<Longrightarrow> x \<in> set xs \<Longrightarrow> filter (\<lambda>p. p = x) xs = [x]"
  by (induction xs) (auto simp: filter_empty_conv)

lemma mset_single_list: "mset xs = {#a#} \<Longrightarrow> xs = [a]"
  by (cases xs) auto

lemma selected_exact: "test_name rn \<noteq> [] \<Longrightarrow> selected rn ps = filter (\<lambda>p. p = test_name rn) ps"
  by (simp add: selected_def)

lemma selected_all: "test_name rn = [] \<Longrightarrow> selected rn ps = ps"
  by (simp add: selected_def)

lemma entered_prefix:
  "test_name rn \<noteq> [] \<Longrightarrow> entered rn ps = filter (\<lambda>p. prefix p (test_name rn)) ps"
  by (simp add: entered_def)

lemma qualified_path_nonempty: "qualified_path stk t \<noteq> []" "[] \<noteq> qualified_path stk t"
  by (simp_all add: qualified_path_def)

lemma tests_nonempty:
  "[] \<notin> set (suite_tests stk s)"
  "[] \<notin> set (suites_tests stk ss)"
  by (induction stk s and stk ss rule: suite_tests_suites_tests.induct)
     (auto simp: qualified_path_nonempty)

text \<open>
  C1, as amended. When every selected reporter is registered and the filter is empty or
  holds a slash, \<^verbatim>\<open>run\<close> returns 0 if \<^verbatim>\<open>_passed\<close> equals \<^verbatim>\<open>_tests\<close> and 1 otherwise, and
  the two counters are equal exactly when every result reported has the status passed.
\<close>

theorem run_exit_code:
  assumes "list_all (registered e) (reporters_of opts)"
    and "test_name (runner_of opts) = [] \<or> CHR ''/'' \<in> set (test_name (runner_of opts))"
  shows "let w = snd (run e suites opts schedule) in
           fst (run e suites opts schedule) = Return (if r_passed w = r_tests w then 0 else 1)
         \<and> (r_passed w = r_tests w
              \<longleftrightarrow> (\<forall>pr \<in> set (results (trace w)). status (snd pr) = passed))"
proof (cases "o_help opts \<or> o_version opts")
  case True
  then show ?thesis
    using run_info [OF True, of e suites schedule] by (simp add: Let_def)
next
  case False
  define w1 where "w1 = runner_call e (runner_of opts) suites (initial schedule)"
  define w where "w = emit (Summary (r_failed w1) (r_passed w1) (r_tests w1)) w1"
  from False assms have r: "run e suites opts schedule =
      (if r_passed w1 = r_tests w1 then Return 0 else Return 1, w)"
    unfolding w_def by (intro run_walks) (simp_all add: w1_def)
  have "counted (runner_of opts) w1"
    and "mset (map fst (results (trace w1))) = mset (dispatched (trace w1))"
    using walk_initial [OF w1_def] by simp_all
  then have "r_passed w1 = r_tests w1
      \<longleftrightarrow> (\<forall>pr \<in> set (results (trace w1)). status (snd pr) = passed)"
    by (rule results_all)
  moreover have "r_passed w = r_passed w1" "r_tests w = r_tests w1"
      "results (trace w) = results (trace w1)"
    by (simp_all add: w_def emit_def)
  ultimately show ?thesis
    by (simp add: r Let_def)
qed

text \<open>
  C1 as stated fails: with the quiet option and the filter \<open>AB\<close>, which holds no slash,
  \<^verbatim>\<open>run\<close> returns 1 although no test was dispatched and the counters are equal.
\<close>

theorem run_exit_code_counterexample:
  "fst (run (demo_env [] False) demo_tree (demo_options\<lparr>o_test := Some ''AB'', o_quiet := True\<rparr>) [])
     = Return 1
   \<and> dispatched (trace (snd (run (demo_env [] False) demo_tree
         (demo_options\<lparr>o_test := Some ''AB'', o_quiet := True\<rparr>) []))) = []
   \<and> results (trace (snd (run (demo_env [] False) demo_tree
         (demo_options\<lparr>o_test := Some ''AB'', o_quiet := True\<rparr>) []))) = []
   \<and> r_passed (snd (run (demo_env [] False) demo_tree
         (demo_options\<lparr>o_test := Some ''AB'', o_quiet := True\<rparr>) []))
     = r_tests (snd (run (demo_env [] False) demo_tree
         (demo_options\<lparr>o_test := Some ''AB'', o_quiet := True\<rparr>) []))"
  by code_simp

lemma demo_registered:
  "list_all (registered (demo_env bytes flag)) (reporters_of (demo_options\<lparr>o_test := x, o_quiet := y\<rparr>))"
  "list_all (registered (demo_env bytes flag)) (reporters_of demo_options)"
  by (simp_all add: demo_env_def reporters_of_def demo_options_def)

lemma demo_counts:
  "r_passed (snd (run (demo_env ''0 '' False) demo_tree demo_options [])) = 4"
  "r_tests (snd (run (demo_env ''0 '' False) demo_tree demo_options [])) = 4"
  "r_passed (snd (run (demo_env ''1 boom'' False) demo_tree demo_options [])) = 0"
  "r_tests (snd (run (demo_env ''1 boom'' False) demo_tree demo_options [])) = 4"
  by code_simp+

text \<open>The amended C1 on the demo tree, with children that all pass and that all fail.\<close>

theorem run_exit_code_witness:
  "fst (run (demo_env ''0 '' False) demo_tree demo_options []) = Return 0
   \<and> fst (run (demo_env ''1 boom'' False) demo_tree demo_options []) = Return 1"
proof -
  have f: "test_name (runner_of demo_options) = []
      \<or> CHR ''/'' \<in> set (test_name (runner_of demo_options))"
    by (simp add: runner_of_def demo_options_def)
  have "fst (run (demo_env ''0 '' False) demo_tree demo_options []) = Return 0"
    using run_exit_code [OF demo_registered(2) f, of "''0 ''" False demo_tree "[]"]
    by (simp add: Let_def demo_counts)
  moreover have "fst (run (demo_env ''1 boom'' False) demo_tree demo_options []) = Return 1"
    using run_exit_code [OF demo_registered(2) f, of "''1 boom''" False demo_tree "[]"]
    by (simp add: Let_def demo_counts)
  ultimately show ?thesis
    by simp
qed

text \<open>
  C8. A run that asks for neither the help nor the version, with every selected reporter
  registered and a filter that is not empty and holds no slash: without the quiet option
  \<^verbatim>\<open>run\<close> throws \<^verbatim>\<open>invalid_testcase_name_format\<close>; with it, \<^verbatim>\<open>run\<close> writes the number of
  \<^verbatim>\<open>not_found\<close> to standard output and returns 1. Either way nothing is dispatched.
\<close>

theorem malformed_filter:
  assumes "\<not> o_help opts" "\<not> o_version opts" "list_all (registered e) (reporters_of opts)"
    and "o_test opts = Some f" "f \<noteq> []" "CHR ''/'' \<notin> set f"
  shows "(\<not> o_quiet opts \<longrightarrow>
            fst (run e suites opts schedule) = Throw (Invalid_testcase_name_format f))
       \<and> (o_quiet opts \<longrightarrow>
            fst (run e suites opts schedule) = Return 1
          \<and> cout (snd (run e suites opts schedule)) = show_nat (status_code not_found))
       \<and> trace (snd (run e suites opts schedule)) = []
       \<and> r_tests (snd (run e suites opts schedule)) = 0"
  using assms by (simp add: run_def runner_of_def Let_def initial_def)

text \<open>C8 on the filter \<open>AB\<close>, without and with the quiet option.\<close>

theorem malformed_filter_witness:
  "fst (run (demo_env [] False) demo_tree (demo_options\<lparr>o_test := Some ''AB'', o_quiet := False\<rparr>) [])
     = Throw (Invalid_testcase_name_format ''AB'')
   \<and> fst (run (demo_env [] False) demo_tree (demo_options\<lparr>o_test := Some ''AB'', o_quiet := True\<rparr>) [])
     = Return 1
   \<and> cout (snd (run (demo_env [] False) demo_tree
        (demo_options\<lparr>o_test := Some ''AB'', o_quiet := True\<rparr>) [])) = ''4''"
proof -
  have n: "show_nat 4 = ''4''"
    by code_simp
  have h: "\<not> o_help (demo_options\<lparr>o_test := Some ''AB'', o_quiet := q\<rparr>)"
      "\<not> o_version (demo_options\<lparr>o_test := Some ''AB'', o_quiet := q\<rparr>)"
      "o_test (demo_options\<lparr>o_test := Some ''AB'', o_quiet := q\<rparr>) = Some ''AB''"
      "o_quiet (demo_options\<lparr>o_test := Some ''AB'', o_quiet := q\<rparr>) = q" for q
    by (simp_all add: demo_options_def)
  have s: "''AB'' \<noteq> []" "CHR ''/'' \<notin> set ''AB''"
    by simp_all
  show ?thesis
    using malformed_filter [OF h(1) h(2) demo_registered(1) h(3) s, of False "[]" False demo_tree "[]"]
      malformed_filter [OF h(1) h(2) demo_registered(1) h(3) s, of True "[]" False demo_tree "[]"]
    by (simp add: h(4) n del: show_nat.simps)
qed

section \<open>What the filter selects\<close>

text \<open>
  C3 as stated fails: \<open>A/B\<close> is the path of a suite and of no test case, the test case
  \<open>A/B/t\<close> lies under that suite, and a run with the filter \<open>A/B\<close> does not dispatch it.
\<close>

theorem suite_prefix_filter_counterexample:
  "''A/B'' \<in> set (suites_paths [] demo_tree)
   \<and> ''A/B'' \<notin> set (suites_tests [] demo_tree)
   \<and> ''A/B/t'' \<in> set (suites_tests [] demo_tree)
   \<and> prefix ''A/B'' ''A/B/t''
   \<and> ''A/B/t'' \<notin> set (dispatched (trace
         (runner_call (demo_env ''0 '' False) (demo_runner 1 ''A/B'') demo_tree (initial []))))"
  by code_simp

text \<open>
  C3, as amended. With a filter that is not empty, the test cases dispatched are those of
  the tree whose qualified path equals the filter, in the order of the walk; a filter
  that is the qualified path of no test case, such as the path of a suite, dispatches
  nothing and no result is reported; and the suites entered are those whose joined path
  is a prefix of the filter.
\<close>

theorem filter_selects_exact_paths:
  assumes "test_name rn \<noteq> []"
  shows "let w = runner_call e rn suites (initial schedule) in
           dispatched (trace w) = filter (\<lambda>p. p = test_name rn) (suites_tests [] suites)
         \<and> (test_name rn \<notin> set (suites_tests [] suites)
              \<longrightarrow> dispatched (trace w) = [] \<and> results (trace w) = [])
         \<and> suites_started (trace w)
             = filter (\<lambda>p. prefix p (test_name rn)) (suites_paths [] suites)"
proof -
  define w where "w = runner_call e rn suites (initial schedule)"
  note wi = walk_initial [OF w_def]
  have d: "dispatched (trace w) = filter (\<lambda>p. p = test_name rn) (suites_tests [] suites)"
    using wi(3) assms by (simp add: selected_exact)
  have n: "dispatched (trace w) = [] \<and> results (trace w) = []"
    if "test_name rn \<notin> set (suites_tests [] suites)"
  proof -
    from that d have "dispatched (trace w) = []"
      by (auto simp: filter_empty_conv)
    moreover from wi(3) wi(4) have "mset (map fst (results (trace w))) = mset (dispatched (trace w))"
      by simp
    ultimately show ?thesis
      by simp
  qed
  have s: "suites_started (trace w) = filter (\<lambda>p. prefix p (test_name rn)) (suites_paths [] suites)"
    using wi(5) assms by (simp add: entered_prefix)
  from d n s show ?thesis
    unfolding w_def [symmetric] Let_def by blast
qed

text \<open>The amended C3 on the demo tree, with the path of a suite and with the path of a test.\<close>

theorem filter_selects_exact_paths_witness:
  "dispatched (trace (runner_call (demo_env ''0 '' False) (demo_runner 1 ''A/B'') demo_tree (initial [])))
     = []
   \<and> suites_started (trace
        (runner_call (demo_env ''0 '' False) (demo_runner 1 ''A/B'') demo_tree (initial [])))
     = [''A'', ''A/B'']
   \<and> dispatched (trace (runner_call (demo_env ''0 '' False) (demo_runner 1 ''A/t1'') demo_tree (initial [])))
     = [''A/t1'']"
proof -
  have t: "suites_tests [] demo_tree = [''A/B/t'', ''A/t1'', ''A/t2'', ''AB/u'']"
    and p: "suites_paths [] demo_tree = [''A'', ''A/B'', ''AB'']"
    by code_simp+
  have n: "test_name (demo_runner k f) = f" for k f
    by (simp add: demo_runner_def)
  have "test_name (demo_runner 1 ''A/B'') \<noteq> []" "test_name (demo_runner 1 ''A/t1'') \<noteq> []"
    by (simp_all add: n)
  from filter_selects_exact_paths [OF this(1), of "demo_env ''0 '' False" demo_tree "[]"]
    filter_selects_exact_paths [OF this(2), of "demo_env ''0 '' False" demo_tree "[]"]
  show ?thesis
    by (simp add: Let_def t p n)
qed

section \<open>One outcome for each dispatched test\<close>

text \<open>
  C5 as stated fails: with the filter \<open>A/B\<close>, the path of a suite, the test case
  \<open>A/B/t\<close> is in scope in the words of the spec, and \<^verbatim>\<open>_tests\<close> is 0 after the walk.
\<close>

theorem in_scope_count_counterexample:
  "filter (spec_in_scope ''A/B'') (suites_tests [] demo_tree) = [''A/B/t'']
   \<and> r_tests (runner_call (demo_env ''0 '' False) (demo_runner 1 ''A/B'') demo_tree (initial [])) = 0
   \<and> dispatched (trace
        (runner_call (demo_env ''0 '' False) (demo_runner 1 ''A/B'') demo_tree (initial []))) = []"
  by code_simp

text \<open>
  C5, as amended. After the walk from the initial state, whatever the children do and
  whatever the schedule of the pool: \<^verbatim>\<open>_tests\<close> is the number of \<open>Dispatched\<close> marks,
  which are the test cases of the tree whose qualified path equals the filter, or all of
  them when the filter is empty, in the order of the walk; the results reported are, up
  to order, one for each dispatched test; \<^verbatim>\<open>_passed\<close> counts the results with status
  passed, so it and the number of other results account for every dispatched test once.
  With a single worker, \<^verbatim>\<open>_failed\<close> lists the other results with their paths, one
  entry each. With more workers nothing is said of \<^verbatim>\<open>_failed\<close>: its \<^verbatim>\<open>push_back\<close> is
  not synchronised.
\<close>

theorem one_outcome_per_dispatched_test:
  "let w = runner_call e rn suites (initial schedule) in
     r_tests w = length (dispatched (trace w))
   \<and> dispatched (trace w)
       = filter (\<lambda>p. test_name rn = [] \<or> p = test_name rn) (suites_tests [] suites)
   \<and> mset (map fst (results (trace w))) = mset (dispatched (trace w))
   \<and> r_passed w = length (filter (\<lambda>pr. status (snd pr) = passed) (results (trace w)))
   \<and> r_passed w + length (filter (\<lambda>pr. status (snd pr) \<noteq> passed) (results (trace w)))
       = r_tests w
   \<and> (threads rn = 1 \<longrightarrow>
        r_failed w =
          map (\<lambda>pr. (status (snd pr), fst pr))
            (filter (\<lambda>pr. status (snd pr) \<noteq> passed) (results (trace w)))
      \<and> r_passed w + length (r_failed w) = r_tests w)"
proof -
  define w where "w = runner_call e rn suites (initial schedule)"
  note wi = walk_initial [OF w_def]
  from wi(1) have c: "r_tests w = length (dispatched (trace w))"
      "r_passed w = length (filter (\<lambda>pr. status (snd pr) = passed) (results (trace w)))"
    by (simp_all add: counted_def)
  from wi(1) have f: "r_failed w = map (\<lambda>pr. (status (snd pr), fst pr))
         (filter (\<lambda>pr. status (snd pr) \<noteq> passed) (results (trace w)))"
    if "threads rn = 1"
    using that by (simp add: counted_def)
  have d: "dispatched (trace w)
      = filter (\<lambda>p. test_name rn = [] \<or> p = test_name rn) (suites_tests [] suites)"
    using wi(3) by (simp add: selected_def)
  have m: "mset (map fst (results (trace w))) = mset (dispatched (trace w))"
    using wi(3) wi(4) by simp
  then have "length (map fst (results (trace w))) = length (dispatched (trace w))"
    by (rule mset_eq_length)
  then have "r_tests w = length (results (trace w))"
    by (simp add: c(1))
  moreover have "r_passed w + length (filter (\<lambda>pr. status (snd pr) \<noteq> passed) (results (trace w)))
      = length (results (trace w))"
    by (simp add: c(2) sum_length_filter_compl)
  ultimately have s: "r_passed w
      + length (filter (\<lambda>pr. status (snd pr) \<noteq> passed) (results (trace w))) = r_tests w"
    by simp
  have s1: "r_passed w + length (r_failed w) = r_tests w" if "threads rn = 1"
    using s f [OF that] by simp
  from c d m s f s1 show ?thesis
    unfolding w_def [symmetric] Let_def by blast
qed

text \<open>
  The amended C5 on the demo tree with children that report a failure: three workers
  and a schedule that runs the second test of suite \<open>A\<close> before the first, and a
  single worker.
\<close>

theorem one_outcome_per_dispatched_test_witness:
  "r_tests (runner_call (demo_env ''1 boom'' False) (demo_runner 3 []) demo_tree (initial [0, 0, 0, 0, 1]))
     = 4
   \<and> map fst (results (trace
        (runner_call (demo_env ''1 boom'' False) (demo_runner 3 []) demo_tree (initial [0, 0, 0, 0, 1]))))
     = [''A/B/t'', ''A/t2'', ''A/t1'', ''AB/u'']
   \<and> r_passed (runner_call (demo_env ''1 boom'' False) (demo_runner 1 []) demo_tree (initial []))
       + length (r_failed
           (runner_call (demo_env ''1 boom'' False) (demo_runner 1 []) demo_tree (initial [])))
     = 4
   \<and> r_failed (runner_call (demo_env ''1 boom'' False) (demo_runner 1 []) demo_tree (initial []))
     = [(failed, ''A/B/t''), (failed, ''A/t1''), (failed, ''A/t2''), (failed, ''AB/u'')]"
proof -
  let ?w = "runner_call (demo_env ''1 boom'' False) (demo_runner 3 []) demo_tree
    (initial [0, 0, 0, 0, 1])"
  let ?v = "runner_call (demo_env ''1 boom'' False) (demo_runner 1 []) demo_tree (initial [])"
  have t: "suites_tests [] demo_tree = [''A/B/t'', ''A/t1'', ''A/t2'', ''AB/u'']"
    by code_simp
  have r: "map fst (results (trace ?w)) = [''A/B/t'', ''A/t2'', ''A/t1'', ''AB/u'']"
    by code_simp
  have f: "r_failed ?v
    = [(failed, ''A/B/t''), (failed, ''A/t1''), (failed, ''A/t2''), (failed, ''AB/u'')]"
    by code_simp
  have n: "test_name (demo_runner k []) = []" "threads (demo_runner k []) = k" for k
    by (simp_all add: demo_runner_def)
  note th = one_outcome_per_dispatched_test
    [of "demo_env ''1 boom'' False" "demo_runner 3 []" demo_tree "[0, 0, 0, 0, 1]",
      unfolded Let_def]
  note tv = one_outcome_per_dispatched_test
    [of "demo_env ''1 boom'' False" "demo_runner 1 []" demo_tree "[]", unfolded Let_def]
  from th have a: "r_tests ?w = length (dispatched (trace ?w))"
    by blast
  from th have b: "dispatched (trace ?w)
      = filter (\<lambda>p. test_name (demo_runner 3 []) = [] \<or> p = test_name (demo_runner 3 []))
          (suites_tests [] demo_tree)"
    by blast
  have "threads (demo_runner 1 []) = 1"
    by (simp add: n)
  with tv have c: "r_passed ?v + length (r_failed ?v) = r_tests ?v"
      and a1: "r_tests ?v = length (dispatched (trace ?v))"
      and b1: "dispatched (trace ?v)
      = filter (\<lambda>p. test_name (demo_runner 1 []) = [] \<or> p = test_name (demo_runner 1 []))
          (suites_tests [] demo_tree)"
    by blast+
  have "r_tests ?w = 4"
    by (simp only: a b t n) simp
  moreover have "r_tests ?v = 4"
    by (simp only: a1 b1 t n) simp
  ultimately show ?thesis
    using c f r by simp
qed

section \<open>A filter that matches nothing\<close>

text \<open>
  C10. A run whose selected reporters are registered, with a filter that holds a slash,
  is the qualified path of no test case of the tree and is a prefix of none: no test is
  dispatched, no result of any status is reported, the list of failures is empty, and
  \<^verbatim>\<open>run\<close> returns 0.
\<close>

theorem unmatched_filter:
  assumes "list_all (registered e) (reporters_of opts)"
    and "o_test opts = Some f" "CHR ''/'' \<in> set f"
    and "f \<notin> set (suites_tests [] suites)"
    and "\<forall>q \<in> set (suites_tests [] suites). \<not> prefix f q"
  shows "let w = snd (run e suites opts schedule) in
           fst (run e suites opts schedule) = Return 0
         \<and> r_tests w = 0
         \<and> dispatched (trace w) = []
         \<and> results (trace w) = []
         \<and> r_failed w = []"
proof (cases "o_help opts \<or> o_version opts")
  case True
  then show ?thesis
    using run_info [OF True, of e suites schedule] by (simp add: Let_def)
next
  case False
  define rn where "rn = runner_of opts"
  define w1 where "w1 = runner_call e rn suites (initial schedule)"
  define w where "w = emit (Summary (r_failed w1) (r_passed w1) (r_tests w1)) w1"
  from assms(2) have f: "test_name rn = f"
    by (simp add: rn_def runner_of_def)
  with assms(3) have ne: "test_name rn \<noteq> []"
    by auto
  from False assms(1) assms(3) f have r: "run e suites opts schedule =
      (if r_passed w1 = r_tests w1 then Return 0 else Return 1, w)"
    unfolding w_def rn_def by (intro run_walks) (simp_all add: w1_def rn_def)
  note wi = walk_initial [OF w1_def]
  have d: "dispatched (trace w1) = []"
    using wi(3) assms(4) ne by (auto simp: selected_exact f filter_empty_conv)
  moreover from wi(3) wi(4) have "mset (map fst (results (trace w1))) = mset (dispatched (trace w1))"
    by simp
  ultimately have rs: "results (trace w1) = []"
    by simp
  from wi(1) d rs have c: "r_tests w1 = 0" "r_passed w1 = 0" "r_failed w1 = []"
    by (simp_all add: counted_def)
  show ?thesis
    by (simp add: r Let_def w_def emit_def c d rs)
qed

text \<open>C10 on the demo tree with the filter \<open>A/x\<close>.\<close>

theorem unmatched_filter_witness:
  "fst (run (demo_env ''0 '' False) demo_tree (demo_options\<lparr>o_test := Some ''A/x'', o_quiet := False\<rparr>) [])
     = Return 0
   \<and> r_tests (snd (run (demo_env ''0 '' False) demo_tree
        (demo_options\<lparr>o_test := Some ''A/x'', o_quiet := False\<rparr>) [])) = 0
   \<and> r_failed (snd (run (demo_env ''0 '' False) demo_tree
        (demo_options\<lparr>o_test := Some ''A/x'', o_quiet := False\<rparr>) [])) = []"
proof -
  have t: "suites_tests [] demo_tree = [''A/B/t'', ''A/t1'', ''A/t2'', ''AB/u'']"
    by code_simp
  have h: "o_test (demo_options\<lparr>o_test := Some ''A/x'', o_quiet := False\<rparr>) = Some ''A/x''"
      "CHR ''/'' \<in> set ''A/x''"
      "''A/x'' \<notin> set (suites_tests [] demo_tree)"
      "\<forall>q \<in> set (suites_tests [] demo_tree). \<not> prefix ''A/x'' q"
    by (simp_all add: t)
  show ?thesis
    using unmatched_filter [OF demo_registered(1) h, of "''0 ''" False "[]"]
    by (simp add: Let_def)
qed

section \<open>In this process or in a child\<close>

text \<open>
  C2. \<^verbatim>\<open>_run_test\<close> calls the body in this process when the qualified path of the test
  equals the filter, and in every other case executes a child with the arguments
  \<^verbatim>\<open>--test <path> -r subprocess\<close>. Over a whole walk from the initial state, the tests
  executed in this process are the reported ones whose path equals the filter and those
  executed in a child are the others; with an empty filter every test of the tree runs in
  a child; and with a filter that is the qualified path of a test case of a tree whose
  qualified paths are distinct, that one test is dispatched, it is executed in this
  process, and no child is spawned.
\<close>

theorem execution_path:
  "(qualified_path stk t = test_name rn \<longrightarrow>
      execute e rn t stk = (in_process t, In_process (qualified_path stk t)))
   \<and> (qualified_path stk t \<noteq> test_name rn \<longrightarrow>
      execute e rn t stk =
        (isolated e rn stk t,
         Spawned (qualified_path stk t)
           [executable rn, ''--test'', qualified_path stk t, ''-r'', ''subprocess'']))
   \<and> (let w = runner_call e rn suites (initial schedule) in
        in_process_run (trace w) = filter (\<lambda>p. p = test_name rn) (map fst (results (trace w)))
      \<and> spawned (trace w) = filter (\<lambda>p. p \<noteq> test_name rn) (map fst (results (trace w)))
      \<and> mset (map fst (results (trace w))) = mset (dispatched (trace w))
      \<and> (test_name rn = [] \<longrightarrow>
            in_process_run (trace w) = []
          \<and> mset (spawned (trace w)) = mset (suites_tests [] suites))
      \<and> (distinct (suites_tests [] suites) \<and> test_name rn \<in> set (suites_tests [] suites) \<longrightarrow>
            dispatched (trace w) = [test_name rn]
          \<and> map fst (results (trace w)) = [test_name rn]
          \<and> in_process_run (trace w) = [test_name rn]
          \<and> spawned (trace w) = []))"
proof -
  define w where "w = runner_call e rn suites (initial schedule)"
  note wi = walk_initial [OF w_def]
  have x: "qualified_path stk t = test_name rn \<longrightarrow>
      execute e rn t stk = (in_process t, In_process (qualified_path stk t))"
    by (simp add: execute_def Let_def)
  have y: "qualified_path stk t \<noteq> test_name rn \<longrightarrow>
      execute e rn t stk =
        (isolated e rn stk t,
         Spawned (qualified_path stk t)
           [executable rn, ''--test'', qualified_path stk t, ''-r'', ''subprocess''])"
    by (simp add: execute_def Let_def child_args_def)
  from wi(1) have c:
      "in_process_run (trace w) = filter (\<lambda>p. p = test_name rn) (map fst (results (trace w)))"
      "spawned (trace w) = filter (\<lambda>p. p \<noteq> test_name rn) (map fst (results (trace w)))"
    by (simp_all add: counted_def)
  have m: "mset (map fst (results (trace w))) = mset (dispatched (trace w))"
    using wi(3) wi(4) by simp
  have all: "in_process_run (trace w) = [] \<and> mset (spawned (trace w)) = mset (suites_tests [] suites)"
    if "test_name rn = []"
  proof -
    from m wi(3) that have s: "mset (map fst (results (trace w))) = mset (suites_tests [] suites)"
      by (simp add: selected_all)
    then have "set (map fst (results (trace w))) = set (suites_tests [] suites)"
      by (rule mset_eq_setD)
    with tests_nonempty(2) [of "[]" suites] have ne: "\<forall>p \<in> set (map fst (results (trace w))). p \<noteq> []"
      by metis
    then have "filter (\<lambda>p. p = test_name rn) (map fst (results (trace w))) = []"
      unfolding that by (simp add: filter_empty_conv)
    moreover from ne have "filter (\<lambda>p. p \<noteq> test_name rn) (map fst (results (trace w)))
        = map fst (results (trace w))"
      unfolding that by (simp add: filter_id_conv)
    ultimately show ?thesis
      using c s by simp
  qed
  have one: "dispatched (trace w) = [test_name rn] \<and> map fst (results (trace w)) = [test_name rn]
      \<and> in_process_run (trace w) = [test_name rn] \<and> spawned (trace w) = []"
    if "distinct (suites_tests [] suites) \<and> test_name rn \<in> set (suites_tests [] suites)"
  proof -
    from that tests_nonempty(2) [of "[]" suites] have "test_name rn \<noteq> []"
      by metis
    with wi(3) that have d: "dispatched (trace w) = [test_name rn]"
      by (simp add: selected_exact filter_eq_distinct)
    with m have "map fst (results (trace w)) = [test_name rn]"
      by (simp add: mset_single_list)
    with d c show ?thesis
      by simp
  qed
  from x y c m all one show ?thesis
    unfolding w_def [symmetric] Let_def by blast
qed

text \<open>C2 on the demo tree: the filter \<open>A/t1\<close>, and no filter.\<close>

theorem execution_path_witness:
  "in_process_run (trace (runner_call (demo_env ''0 '' False) (demo_runner 1 ''A/t1'') demo_tree (initial [])))
     = [''A/t1'']
   \<and> spawned (trace (runner_call (demo_env ''0 '' False) (demo_runner 1 ''A/t1'') demo_tree (initial [])))
     = []
   \<and> dispatched (trace (runner_call (demo_env ''0 '' False) (demo_runner 1 ''A/t1'') demo_tree (initial [])))
     = [''A/t1'']
   \<and> in_process_run (trace (runner_call (demo_env ''0 '' False) (demo_runner 1 []) demo_tree (initial [])))
     = []
   \<and> execute (demo_env ''0 '' False) (demo_runner 1 ''A/t1'') \<lparr>t_name = ''t1'', t_body = Returns\<rparr> [''A'']
     = (in_process \<lparr>t_name = ''t1'', t_body = Returns\<rparr>, In_process ''A/t1'')
   \<and> snd (execute (demo_env ''0 '' False) (demo_runner 1 []) \<lparr>t_name = ''t1'', t_body = Returns\<rparr> [''A''])
     = Spawned ''A/t1'' [''./tests'', ''--test'', ''A/t1'', ''-r'', ''subprocess'']"
proof -
  let ?e = "demo_env ''0 '' False"
  let ?t = "\<lparr>t_name = ''t1'', t_body = Returns\<rparr>"
  have t: "suites_tests [] demo_tree = [''A/B/t'', ''A/t1'', ''A/t2'', ''AB/u'']"
    by code_simp
  have n: "test_name (demo_runner k f) = f" "executable (demo_runner k f) = ''./tests''" for k f
    by (simp_all add: demo_runner_def)
  have q: "qualified_path [''A''] ?t = ''A/t1''"
    by (simp add: qualified_path_def)
  note a = execution_path [of "[''A'']" ?t "demo_runner 1 ''A/t1''" ?e demo_tree "[]",
      unfolded Let_def n q t]
  note b = execution_path [of "[''A'']" ?t "demo_runner 1 []" ?e demo_tree "[]",
      unfolded Let_def n q t]
  from a have a1: "execute ?e (demo_runner 1 ''A/t1'') ?t [''A''] = (in_process ?t, In_process ''A/t1'')"
    by blast
  have "distinct [''A/B/t'', ''A/t1'', ''A/t2'', ''AB/u''] \<and> ''A/t1'' \<in> set [''A/B/t'', ''A/t1'', ''A/t2'', ''AB/u'']"
    by simp
  with a have a2:
    "dispatched (trace (runner_call ?e (demo_runner 1 ''A/t1'') demo_tree (initial []))) = [''A/t1'']
     \<and> map fst (results (trace (runner_call ?e (demo_runner 1 ''A/t1'') demo_tree (initial [])))) = [''A/t1'']
     \<and> in_process_run (trace (runner_call ?e (demo_runner 1 ''A/t1'') demo_tree (initial []))) = [''A/t1'']
     \<and> spawned (trace (runner_call ?e (demo_runner 1 ''A/t1'') demo_tree (initial []))) = []"
    by blast
  have "''A/t1'' \<noteq> []"
    by simp
  with b have b1: "execute ?e (demo_runner 1 []) ?t [''A'']
      = (isolated ?e (demo_runner 1 []) [''A''] ?t,
         Spawned ''A/t1'' [''./tests'', ''--test'', ''A/t1'', ''-r'', ''subprocess''])"
    by blast
  from b have b2: "in_process_run (trace (runner_call ?e (demo_runner 1 []) demo_tree (initial []))) = []"
    by blast
  from a1 a2 b1 b2 show ?thesis
    by simp
qed

section \<open>Which suites are entered\<close>

text \<open>
  C7. With a filter that is not empty, \<^verbatim>\<open>_handle_suite\<close> enters a suite exactly when the
  joined path of the suite is a prefix of the filter. When it is, the suite's start is
  notified first and its finish last. When it is not, the call changes nothing: no
  notification, no descendant suite entered, no test dispatched. Over a whole walk, the
  suites whose start is notified are those of the tree whose path is a prefix of the
  filter, in the order of the tree, and the same suites have their finish notified.
\<close>

theorem suite_entered_iff_prefix:
  assumes "test_name rn \<noteq> []"
  shows "(prefix (join (stk @ [s_name s]) ''/'') (test_name rn) \<longrightarrow>
            (\<exists>mid. trace (handle_suite e rn s stk w)
               = trace w @ Suite_started (join (stk @ [s_name s]) ''/'') # mid
                   @ [Suite_finished (join (stk @ [s_name s]) ''/'')]))
       \<and> (\<not> prefix (join (stk @ [s_name s]) ''/'') (test_name rn) \<longrightarrow>
            handle_suite e rn s stk w = w)
       \<and> (let w' = runner_call e rn suites (initial schedule) in
            suites_started (trace w')
              = filter (\<lambda>p. prefix p (test_name rn)) (suites_paths [] suites)
          \<and> mset (suites_finished (trace w'))
              = mset (filter (\<lambda>p. prefix p (test_name rn)) (suites_paths [] suites)))"
proof -
  obtain n subs ts where s: "s = Suite n subs ts"
    by (cases s)
  let ?p = "join (stk @ [n]) ''/''"
  have a: "\<exists>mid. trace (handle_suite e rn s stk w)
      = trace w @ Suite_started ?p # mid @ [Suite_finished ?p]"
    if "prefix ?p (test_name rn)"
  proof -
    from that have "test_name rn = [] \<or> prefix ?p (test_name rn)"
      by simp
    then obtain blocks own where
      "trace (handle_suite e rn (Suite n subs ts) stk w)
         = trace w @ [Suite_started ?p] @ concat blocks @ own @ [Suite_finished ?p]"
      using entered_suite_trace [of rn stk n subs e ts w] handle_suite_block by blast
    then have "trace (handle_suite e rn s stk w)
        = trace w @ Suite_started ?p # (concat blocks @ own) @ [Suite_finished ?p]"
      by (simp add: s)
    then show ?thesis
      by blast
  qed
  have b: "handle_suite e rn s stk w = w" if "\<not> prefix ?p (test_name rn)"
    using that assms by (simp add: s Let_def search_zero_iff)
  define w' where "w' = runner_call e rn suites (initial schedule)"
  note wi = walk_initial [OF w'_def]
  have c: "suites_started (trace w') = filter (\<lambda>p. prefix p (test_name rn)) (suites_paths [] suites)"
      "mset (suites_finished (trace w'))
         = mset (filter (\<lambda>p. prefix p (test_name rn)) (suites_paths [] suites))"
    using wi(5) wi(6) assms by (simp_all add: entered_prefix)
  from a b c show ?thesis
    unfolding w'_def [symmetric] Let_def s by simp
qed

text \<open>C7 on the demo tree with the filter \<open>A/B/t\<close>: suite \<open>AB\<close> is not entered.\<close>

theorem suite_entered_iff_prefix_witness:
  "suites_started (trace (runner_call (demo_env ''0 '' False) (demo_runner 1 ''A/B/t'') demo_tree (initial [])))
     = [''A'', ''A/B'']
   \<and> handle_suite (demo_env ''0 '' False) (demo_runner 1 ''A/B/t'')
        (Suite ''AB'' [] [\<lparr>t_name = ''u'', t_body = Returns\<rparr>]) [] (initial [])
     = initial []
   \<and> (\<exists>mid. trace (handle_suite (demo_env ''0 '' False) (demo_runner 1 ''A/B/t'')
          (Suite ''B'' [] [\<lparr>t_name = ''t'', t_body = Returns\<rparr>]) [''A''] (initial []))
        = Suite_started ''A/B'' # mid @ [Suite_finished ''A/B''])"
proof -
  let ?e = "demo_env ''0 '' False"
  let ?rn = "demo_runner 1 ''A/B/t''"
  have p: "suites_paths [] demo_tree = [''A'', ''A/B'', ''AB'']"
    by code_simp
  have n: "test_name ?rn = ''A/B/t''"
    by (simp add: demo_runner_def)
  then have ne: "test_name ?rn \<noteq> []"
    by simp
  have i: "trace (initial []) = []"
    by (simp add: initial_def)
  note a = suite_entered_iff_prefix [OF ne,
      of "[]" "Suite ''AB'' [] [\<lparr>t_name = ''u'', t_body = Returns\<rparr>]" ?e "initial []" demo_tree "[]",
      unfolded Let_def n p]
  note b = suite_entered_iff_prefix [OF ne,
      of "[''A'']" "Suite ''B'' [] [\<lparr>t_name = ''t'', t_body = Returns\<rparr>]" ?e "initial []" demo_tree "[]",
      unfolded Let_def n p]
  from a have "suites_started (trace (runner_call ?e ?rn demo_tree (initial []))) = [''A'', ''A/B'']"
    by simp
  moreover from a have "handle_suite ?e ?rn
      (Suite ''AB'' [] [\<lparr>t_name = ''u'', t_body = Returns\<rparr>]) [] (initial []) = initial []"
    by simp
  moreover from b have "\<exists>mid. trace (handle_suite ?e ?rn
        (Suite ''B'' [] [\<lparr>t_name = ''t'', t_body = Returns\<rparr>]) [''A''] (initial []))
      = Suite_started ''A/B'' # mid @ [Suite_finished ''A/B'']"
    by (simp add: i)
  ultimately show ?thesis
    by blast
qed

section \<open>The order within a suite\<close>

text \<open>Each call for a sub-suite appends one block, and the loop over them one after the other.\<close>

lemma handle_suite_child_block:
  "\<exists>es. trace (handle_suite e rn s stk w) = trace w @ es \<and> child_block rn stk s es"
proof -
  obtain n subs ts where s: "s = Suite n subs ts"
    by (cases s)
  let ?p = "join (stk @ [s_name s]) ''/''"
  obtain es where es: "trace (handle_suite e rn s stk w) = trace w @ es" "suite_block ?p es"
    using handle_suite_block by blast
  have we: "walk_effect rn (suite_tests stk s) (suite_paths stk s) w (handle_suite e rn s stk w)"
    by (rule handle_suite_walk)
  then have d: "dispatched es = selected rn (suite_tests stk s)"
    and st: "suites_started es = entered rn (suite_paths stk s)"
    by (simp_all add: walk_effect_def es(1))
  from we have r: "mset (map fst (results es)) = mset (dispatched es)"
    by (simp add: walk_effect_def es(1) d)
  from we have f: "mset (suites_finished es) = mset (suites_started es)"
    by (simp add: walk_effect_def es(1) st)
  have shape: "if search (test_name rn) ?p = 0
      then \<exists>mid. es = Suite_started ?p # mid @ [Suite_finished ?p] else es = []"
  proof (cases "search (test_name rn) ?p = 0")
    case False
    then have "handle_suite e rn s stk w = w"
      by (simp add: s Let_def)
    with es(1) False show ?thesis
      by simp
  next
    case True
    then have "test_name rn = [] \<or> prefix (join (stk @ [n]) ''/'') (test_name rn)"
      by (simp add: s search_zero_iff)
    then obtain blocks own where
      "trace (handle_suite e rn (Suite n subs ts) stk w)
         = trace w @ [Suite_started (join (stk @ [n]) ''/'')] @ concat blocks @ own
             @ [Suite_finished (join (stk @ [n]) ''/'')]"
      using entered_suite_trace [of rn stk n subs e ts w] handle_suite_block by blast
    with es(1) have "es = Suite_started ?p # (concat blocks @ own) @ [Suite_finished ?p]"
      by (simp add: s)
    with True show ?thesis
      by auto
  qed
  from es(2) have u: "\<forall>ev \<in> set es. prefix ?p (event_path ev)"
    by (simp add: suite_block_def)
  from shape u st f d r have "child_block rn stk s es"
    unfolding child_block_def by blast
  with es(1) show ?thesis
    by blast
qed

lemma handle_suites_child_blocks:
  "\<exists>blocks. trace (handle_suites e rn ss stk w) = trace w @ concat blocks
     \<and> list_all2 (child_block rn stk) ss blocks"
proof (induction ss arbitrary: w)
  case Nil
  then show ?case by simp
next
  case (Cons s ss)
  obtain es where es: "trace (handle_suite e rn s stk w) = trace w @ es" "child_block rn stk s es"
    using handle_suite_child_block by blast
  obtain blocks where bs:
      "trace (handle_suites e rn ss stk (handle_suite e rn s stk w))
         = trace (handle_suite e rn s stk w) @ concat blocks"
      "list_all2 (child_block rn stk) ss blocks"
    using Cons.IH [of "handle_suite e rn s stk w"] by blast
  from es bs have "trace (handle_suites e rn (s # ss) stk w) = trace w @ concat (es # blocks)
      \<and> list_all2 (child_block rn stk) (s # ss) (es # blocks)"
    by simp
  then show ?case
    by blast
qed

text \<open>
  C6. The trace of a suite that \<^verbatim>\<open>_handle_suite\<close> enters is, after the notification of its
  start: one block for each sub-suite, in their order, each block being what the call for
  that sub-suite appends. The block of a sub-suite that the filter lets in runs from the
  notification of its start to that of its finish and holds the whole of its processing:
  the starts and finishes of the suites entered below it, the dispatch of every test
  below it that the filter selects and one result for each. The block of any other
  sub-suite is empty. Then come the events of the suite's own test cases, which hold the
  dispatch of each own test the filter selects and one result for each; then the
  notification of the suite's finish, last.
\<close>

theorem suite_order:
  assumes "search (test_name rn) (join (stk @ [n]) ''/'') = 0"
  shows "\<exists>blocks own.
      trace (handle_suite e rn (Suite n subs ts) stk w)
        = trace w @ [Suite_started (join (stk @ [n]) ''/'')] @ concat blocks @ own
            @ [Suite_finished (join (stk @ [n]) ''/'')]
    \<and> trace (handle_suites e rn subs (stk @ [n]) (emit (Suite_started (join (stk @ [n]) ''/'')) w))
        = trace w @ [Suite_started (join (stk @ [n]) ''/'')] @ concat blocks
    \<and> list_all2 (child_block rn (stk @ [n])) subs blocks
    \<and> test_events (qualified_path (stk @ [n]) ` set ts) own
    \<and> dispatched own = selected rn (map (qualified_path (stk @ [n])) ts)
    \<and> mset (map fst (results own)) = mset (dispatched own)"
proof -
  let ?p = "join (stk @ [n]) ''/''"
  define w1 where "w1 = emit (Suite_started ?p) w"
  define w2 where "w2 = handle_suites e rn subs (stk @ [n]) w1"
  define w3 where "w3 = dispatch e rn (stk @ [n]) ts [] w2"
  from assms have eq: "handle_suite e rn (Suite n subs ts) stk w = emit (Suite_finished ?p) w3"
    by (simp add: Let_def w1_def w2_def w3_def)
  obtain blocks where bs: "trace w2 = trace w1 @ concat blocks"
      "list_all2 (child_block rn (stk @ [n])) subs blocks"
    unfolding w2_def using handle_suites_child_blocks by blast
  have be: "block_effect rn (stk @ [n]) [] ts w2 w3"
    unfolding w3_def by (rule dispatch_effect)
  then obtain own where own: "trace w3 = trace w2 @ own"
      "test_events (qualified_path (stk @ [n]) ` set ts) own"
    by (auto simp: block_effect_def)
  from be have "dispatched (trace w3)
      = dispatched (trace w2) @ selected rn (map (qualified_path (stk @ [n])) ts)"
    by (simp add: block_effect_def)
  then have d: "dispatched own = selected rn (map (qualified_path (stk @ [n])) ts)"
    by (simp add: own(1))
  from be have "mset (map fst (results (trace w3)))
      = mset (map fst (results (trace w2))) + mset (selected rn (map (qualified_path (stk @ [n])) ts))"
    by (simp add: block_effect_def)
  then have r: "mset (map fst (results own)) = mset (dispatched own)"
    by (simp add: own(1) d)
  have "trace (emit (Suite_finished ?p) w3)
      = trace w @ [Suite_started ?p] @ concat blocks @ own @ [Suite_finished ?p]"
    by (simp add: emit_def own(1) bs(1) w1_def)
  moreover have "trace w2 = trace w @ [Suite_started ?p] @ concat blocks"
    by (simp add: bs(1) w1_def emit_def)
  ultimately show ?thesis
    unfolding eq using bs(2) own(2) d r
    unfolding w2_def w1_def by blast
qed

text \<open>
  C6 on suite \<open>A\<close> of the demo tree, which holds the sub-suite \<open>A/B\<close> and the tests
  \<open>A/t1\<close> and \<open>A/t2\<close>: the block of \<open>A/B\<close>, with the dispatch and the result of
  \<open>A/B/t\<close>, ends with the finish of \<open>A/B\<close> before \<open>A/t1\<close> is dispatched.
\<close>

theorem suite_order_witness:
  "(\<exists>mid own.
      trace (handle_suite (demo_env ''0 '' False) (demo_runner 1 []) (hd demo_tree) [] (initial []))
        = [Suite_started ''A''] @ (Suite_started ''A/B'' # mid @ [Suite_finished ''A/B'']) @ own
            @ [Suite_finished ''A'']
    \<and> dispatched mid = [''A/B/t'']
    \<and> mset (map fst (results mid)) = mset (dispatched mid)
    \<and> suites_started own = []
    \<and> dispatched own = [''A/t1'', ''A/t2'']
    \<and> mset (map fst (results own)) = mset (dispatched own))
   \<and> map event_path
       (trace (handle_suite (demo_env ''0 '' False) (demo_runner 1 []) (hd demo_tree) [] (initial [])))
     = [''A'', ''A/B'', ''A/B/t'', ''A/B/t'', ''A/B/t'', ''A/B/t'', ''A/B'',
        ''A/t1'', ''A/t2'', ''A/t1'', ''A/t1'', ''A/t1'', ''A/t2'', ''A/t2'', ''A/t2'', ''A'']"
proof -
  let ?e = "demo_env ''0 '' False"
  let ?rn = "demo_runner 1 []"
  let ?B = "Suite ''B'' [] [\<lparr>t_name = ''t'', t_body = Returns\<rparr>]"
  let ?ts = "[\<lparr>t_name = ''t1'', t_body = Throws_std ''boom''\<rparr>, \<lparr>t_name = ''t2'', t_body = Returns\<rparr>]"
  have h: "hd demo_tree = Suite ''A'' [?B] ?ts"
    by (simp add: demo_tree_def)
  have n: "test_name (demo_runner k []) = []" for k
    by (simp add: demo_runner_def)
  have z: "search (test_name ?rn) (join ([] @ [''A'']) ''/'') = 0"
    by (simp add: n)
  have i: "trace (initial []) = []"
    by (simp add: initial_def)
  have sel: "selected ?rn (map (qualified_path ([] @ [''A''])) ?ts) = [''A/t1'', ''A/t2'']"
    by (simp add: selected_def n qualified_path_def)
  have selB: "selected ?rn (suite_tests ([] @ [''A'']) ?B) = [''A/B/t'']"
    by (simp add: selected_def n qualified_path_def)
  from suite_order [OF z, of ?e "[?B]" ?ts "initial []"]
  obtain blocks own where tr:
    "trace (handle_suite ?e ?rn (Suite ''A'' [?B] ?ts) [] (initial []))
       = trace (initial []) @ [Suite_started (join ([] @ [''A'']) ''/'')] @ concat blocks @ own
           @ [Suite_finished (join ([] @ [''A'']) ''/'')]"
    and bl: "list_all2 (child_block ?rn ([] @ [''A''])) [?B] blocks"
    and te: "test_events (qualified_path ([] @ [''A'']) ` set ?ts) own"
    and ow: "dispatched own = selected ?rn (map (qualified_path ([] @ [''A''])) ?ts)"
      "mset (map fst (results own)) = mset (dispatched own)"
    by blast
  from bl obtain b where b: "blocks = [b]" "child_block ?rn ([] @ [''A'']) ?B b"
    by (auto simp: list_all2_Cons1)
  have jB: "join (([] @ [''A'']) @ [s_name ?B]) ''/'' = ''A/B''"
    by simp
  have zB: "search (test_name ?rn) ''A/B'' = 0"
    by (simp add: n)
  from b(2) have "if search (test_name ?rn) ''A/B'' = 0
      then \<exists>mid. b = Suite_started ''A/B'' # mid @ [Suite_finished ''A/B''] else b = []"
    unfolding child_block_def jB by blast
  with zB obtain mid where mid: "b = Suite_started ''A/B'' # mid @ [Suite_finished ''A/B'']"
    by auto
  from b(2) have "dispatched b = selected ?rn (suite_tests ([] @ [''A'']) ?B)"
      "mset (map fst (results b)) = mset (dispatched b)"
    unfolding child_block_def by blast+
  then have m: "dispatched mid = [''A/B/t'']" "mset (map fst (results mid)) = mset (dispatched mid)"
    unfolding selB by (simp_all add: mid)
  from te have so: "suites_started own = []"
    using test_events_no_suite by blast
  have "trace (handle_suite ?e ?rn (hd demo_tree) [] (initial []))
      = [Suite_started ''A''] @ (Suite_started ''A/B'' # mid @ [Suite_finished ''A/B'']) @ own
          @ [Suite_finished ''A'']"
    using tr by (simp add: h i b(1) mid)
  with m so ow have "\<exists>mid own.
      trace (handle_suite ?e ?rn (hd demo_tree) [] (initial []))
        = [Suite_started ''A''] @ (Suite_started ''A/B'' # mid @ [Suite_finished ''A/B'']) @ own
            @ [Suite_finished ''A'']
    \<and> dispatched mid = [''A/B/t'']
    \<and> mset (map fst (results mid)) = mset (dispatched mid)
    \<and> suites_started own = []
    \<and> dispatched own = [''A/t1'', ''A/t2'']
    \<and> mset (map fst (results own)) = mset (dispatched own)"
    unfolding sel by blast
  moreover have "map event_path (trace (handle_suite ?e ?rn (hd demo_tree) [] (initial [])))
     = [''A'', ''A/B'', ''A/B/t'', ''A/B/t'', ''A/B/t'', ''A/B/t'', ''A/B'',
        ''A/t1'', ''A/t2'', ''A/t1'', ''A/t1'', ''A/t1'', ''A/t2'', ''A/t2'', ''A/t2'', ''A'']"
    by code_simp
  ultimately show ?thesis
    by blast
qed

section \<open>The duration of a result\<close>

lemma in_process_duration: "duration (in_process t) = None"
  by (simp add: in_process_def split: body.splits)

lemma isolated_duration:
  "duration (isolated e rn stk t)
     = Some (to_milliseconds (c_elapsed_ns (child e (child_args rn (qualified_path stk t)))))"
  by (simp add: isolated_def Let_def split: prod.splits)

text \<open>
  C9. With the filter \<open>A/t1\<close> the test \<open>A/t1\<close> runs in this process and the result that
  \<^verbatim>\<open>_run_test\<close> returns has a duration that was never assigned; without a filter the same
  test runs in a child that takes 2500000 ns and the result carries 2 ms.
\<close>

theorem in_process_duration_unset:
  "duration (fst (run_test (demo_env ''0 '' False) (demo_runner 1 ''A/t1'')
       \<lparr>t_name = ''t1'', t_body = Returns\<rparr> [''A''] (initial []))) = None
   \<and> duration (fst (run_test (demo_env ''0 '' False) (demo_runner 1 [])
       \<lparr>t_name = ''t1'', t_body = Returns\<rparr> [''A''] (initial []))) = Some 2"
  by code_simp

end
